theory Spec2Isabelle
  imports
    Complex_Main
    "HOL-Library.Sublist"
    "HOL-Library.Log_Nat"
    "HOL-Library.Word"
begin

unbundle bit_operations_syntax

section \<open>Python strings\<close>

text \<open>
  The analyzer (\<^verbatim>\<open>src/password_strength_analyzer/analyzer.py\<close>) works on Python
  \<^verbatim>\<open>str\<close> values. A string is modelled as a \<^typ>\<open>string\<close>, each \<^typ>\<open>char\<close> standing
  for the Unicode code point of the same number, so the model covers the code points
  0 to 255. The character classes below are CPython's tables restricted to that range.
\<close>

definition cp :: "char \<Rightarrow> nat" where
  "cp c = of_char c"

definition chr_of :: "nat \<Rightarrow> char" where
  "chr_of n = char_of n"

text \<open>\<^verbatim>\<open>str.isspace\<close> of one character; the characters \<^verbatim>\<open>str.strip()\<close> removes.\<close>

definition isspace :: "char \<Rightarrow> bool" where
  "isspace c \<longleftrightarrow>
     (9 \<le> cp c \<and> cp c \<le> 13) \<or> (28 \<le> cp c \<and> cp c \<le> 32) \<or> cp c = 133 \<or> cp c = 160"

text \<open>\<^verbatim>\<open>c.islower()\<close>, \<^verbatim>\<open>c.isupper()\<close>, \<^verbatim>\<open>c.isdigit()\<close> of one character.\<close>

definition islower :: "char \<Rightarrow> bool" where
  "islower c \<longleftrightarrow>
     (97 \<le> cp c \<and> cp c \<le> 122) \<or> cp c = 170 \<or> cp c = 181 \<or> cp c = 186
     \<or> (223 \<le> cp c \<and> cp c \<le> 246) \<or> (248 \<le> cp c \<and> cp c \<le> 255)"

definition isupper :: "char \<Rightarrow> bool" where
  "isupper c \<longleftrightarrow>
     (65 \<le> cp c \<and> cp c \<le> 90) \<or> (192 \<le> cp c \<and> cp c \<le> 214) \<or> (216 \<le> cp c \<and> cp c \<le> 222)"

definition isdigit :: "char \<Rightarrow> bool" where
  "isdigit c \<longleftrightarrow> (48 \<le> cp c \<and> cp c \<le> 57) \<or> cp c = 178 \<or> cp c = 179 \<or> cp c = 185"

text \<open>\<^verbatim>\<open>string.punctuation\<close>, \<^verbatim>\<open>string.digits\<close> and the two ASCII alphabets.\<close>

definition punctuation :: string where
  "punctuation = ''!'' @ [chr_of 34] @ ''#$%&'' @ [chr_of 39] @ ''()*+,-./:;<=>?@[''
     @ [chr_of 92] @ '']^_'' @ [chr_of 96] @ ''{|}~''"

definition digits :: string where
  "digits = ''0123456789''"

definition ascii_lowercase :: string where
  "ascii_lowercase = ''abcdefghijklmnopqrstuvwxyz''"

definition ascii_uppercase :: string where
  "ascii_uppercase = ''ABCDEFGHIJKLMNOPQRSTUVWXYZ''"

definition ascii_letters :: string where
  "ascii_letters = ascii_lowercase @ ascii_uppercase"

text \<open>
  \<^verbatim>\<open>str.lower()\<close>: in this range every cased character has its lower-case partner 32
  places up, and the result stays in the range.
\<close>

definition lower_char :: "char \<Rightarrow> char" where
  "lower_char c = (if isupper c then chr_of (cp c + 32) else c)"

definition lower :: "string \<Rightarrow> string" where
  "lower s = map lower_char s"

text \<open>
  \<^verbatim>\<open>str.upper()\<close>. Three characters of the range leave it when upper-cased
  (181 becomes code point 924, 223 becomes \<^verbatim>\<open>SS\<close>, 255 becomes code point 376); the
  model leaves them as they are. The analyzer only compares an upper-cased string with
  a string of hexadecimal digits, and neither image is such a digit.
\<close>

definition upper_char :: "char \<Rightarrow> char" where
  "upper_char c =
     (if (97 \<le> cp c \<and> cp c \<le> 122) \<or> (224 \<le> cp c \<and> cp c \<le> 246) \<or> (248 \<le> cp c \<and> cp c \<le> 254)
      then chr_of (cp c - 32) else c)"

definition upper :: "string \<Rightarrow> string" where
  "upper s = map upper_char s"

text \<open>\<^verbatim>\<open>str.capitalize()\<close>: first character upper-cased, the rest lower-cased.\<close>

definition capitalize :: "string \<Rightarrow> string" where
  "capitalize s = (case s of [] \<Rightarrow> [] | c # cs \<Rightarrow> upper_char c # lower cs)"

text \<open>\<^verbatim>\<open>str.strip()\<close>: white space removed at both ends.\<close>

definition strip :: "string \<Rightarrow> string" where
  "strip s = rev (dropWhile isspace (rev (dropWhile isspace s)))"

text \<open>
  \<^verbatim>\<open>str.splitlines()\<close>: a line ends at a line boundary, \<^verbatim>\<open>\r\n\<close> counts as one
  boundary, and there is no empty last line.
\<close>

definition is_linebreak :: "char \<Rightarrow> bool" where
  "is_linebreak c \<longleftrightarrow> (10 \<le> cp c \<and> cp c \<le> 13) \<or> (28 \<le> cp c \<and> cp c \<le> 30) \<or> cp c = 133"

fun splitlines_from :: "string \<Rightarrow> string \<Rightarrow> string list" where
  "splitlines_from cur [] = (if cur = [] then [] else [cur])"
| "splitlines_from cur (c # cs) =
     (if is_linebreak c then
        (case cs of
           d # ds \<Rightarrow>
             if cp c = 13 \<and> cp d = 10 then cur # splitlines_from [] ds
             else cur # splitlines_from [] cs
         | [] \<Rightarrow> cur # splitlines_from [] cs)
      else splitlines_from (cur @ [c]) cs)"

definition splitlines :: "string \<Rightarrow> string list" where
  "splitlines s = splitlines_from [] s"

text \<open>\<^verbatim>\<open>s.split(sep)\<close> for a one-character separator: never an empty list.\<close>

fun split_on :: "char \<Rightarrow> string \<Rightarrow> string list" where
  "split_on sep [] = [[]]"
| "split_on sep (c # cs) =
     (if c = sep then [] # split_on sep cs
      else (case split_on sep cs of
              x # xs \<Rightarrow> (c # x) # xs
            | [] \<Rightarrow> [[c]]))"

text \<open>
  \<^verbatim>\<open>int(s)\<close> on a string: white space around it is dropped, one sign is allowed, then
  decimal digits, with single underscores allowed between digits. A string with more
  digits than the interpreter's limit is refused as well: the limit is 4300 unless the
  program or its environment changes it, and the analyzer does not. \<^verbatim>\<open>None\<close> stands
  for the \<^verbatim>\<open>ValueError\<close>.
\<close>

definition int_max_str_digits :: nat where
  "int_max_str_digits = 4300"

definition is_decimal :: "char \<Rightarrow> bool" where
  "is_decimal c \<longleftrightarrow> 48 \<le> cp c \<and> cp c \<le> 57"

fun digits_ok :: "string \<Rightarrow> bool" where
  "digits_ok [] = False"
| "digits_ok [c] = is_decimal c"
| "digits_ok (c # d # cs) =
     (is_decimal c \<and> (if d = CHR ''_'' then digits_ok cs else digits_ok (d # cs)))"

definition decimal_value :: "string \<Rightarrow> int" where
  "decimal_value s = foldl (\<lambda>acc c. 10 * acc + (int (cp c) - 48)) 0 (filter is_decimal s)"

definition py_int :: "string \<Rightarrow> int option" where
  "py_int s =
     (let t = strip s in
      if int_max_str_digits < length (filter is_decimal t) then None
      else
        case t of
          [] \<Rightarrow> None
        | c # cs \<Rightarrow>
            if c = CHR ''-'' then (if digits_ok cs then Some (- decimal_value cs) else None)
            else if c = CHR ''+'' then (if digits_ok cs then Some (decimal_value cs) else None)
            else (if digits_ok t then Some (decimal_value t) else None))"

section \<open>Python floats\<close>

text \<open>
  The score is a Python \<^verbatim>\<open>float\<close>, an IEEE 754 binary64 number. A float is modelled
  by the rational number it denotes. \<open>fround\<close> rounds a rational to the nearest number
  with a 53-bit significand, ties to the even significand; it is exact for the normal
  range of binary64, and every number of this program lies between 0.15 and 2.
  A literal denotes the rounding of its decimal value, and \<^verbatim>\<open>+\<close> is the rounding of
  the exact sum.
\<close>

definition pow2 :: "int \<Rightarrow> rat" where
  "pow2 k = (if 0 \<le> k then 2 ^ nat k else 1 / 2 ^ nat (- k))"

text \<open>The exponent of a positive rational: the \<open>e\<close> with \<open>2^e \<le> x < 2^(e+1)\<close>.\<close>

definition ilog2 :: "rat \<Rightarrow> int" where
  "ilog2 x =
     (if 1 \<le> x then int (floorlog 2 (nat \<lfloor>x\<rfloor>)) - 1
      else - int (floorlog 2 (nat (\<lceil>1 / x\<rceil> - 1))))"

definition round_half_even :: "rat \<Rightarrow> int" where
  "round_half_even q =
     (let f = \<lfloor>q\<rfloor>; d = q - of_int f in
      if d < 1 / 2 then f
      else if 1 / 2 < d then f + 1
      else if even f then f else f + 1)"

definition fround :: "rat \<Rightarrow> rat" where
  "fround x =
     (if x = 0 then 0
      else
        let a = \<bar>x\<bar>;
            u = pow2 (ilog2 a - 52)
        in sgn x * of_int (round_half_even (a / u)) * u)"

definition lit :: "rat \<Rightarrow> rat" where
  "lit r = fround r"

definition fadd :: "rat \<Rightarrow> rat \<Rightarrow> rat" where
  "fadd x y = fround (x + y)"

section \<open>SHA-1 and its hexadecimal digest\<close>

text \<open>
  \<^verbatim>\<open>hashlib.sha1(password.encode("utf-8")).hexdigest()\<close>: the UTF-8 encoding of the
  code points, the SHA-1 compression of the padded message (FIPS 180-4), and the
  digest written as 40 lower-case hexadecimal digits.
\<close>

type_synonym u8 = "8 word"
type_synonym u32 = "32 word"

definition utf8_char :: "char \<Rightarrow> u8 list" where
  "utf8_char c =
     (if cp c < 128 then [of_nat (cp c)]
      else [of_nat (192 + cp c div 64), of_nat (128 + cp c mod 64)])"

definition encode_utf8 :: "string \<Rightarrow> u8 list" where
  "encode_utf8 s = concat (map utf8_char s)"

definition be64 :: "64 word \<Rightarrow> u8 list" where
  "be64 n = map (\<lambda>i. ucast (drop_bit (56 - 8 * i) n)) [0..<8]"

definition sha1_pad :: "u8 list \<Rightarrow> u8 list" where
  "sha1_pad m =
     m @ [128] @ replicate ((119 - length m mod 64) mod 64) 0 @ be64 (of_nat (8 * length m))"

fun be_words :: "u8 list \<Rightarrow> u32 list" where
  "be_words (a # b # c # d # rest) =
     (push_bit 24 (ucast a) OR push_bit 16 (ucast b) OR push_bit 8 (ucast c) OR ucast d)
       # be_words rest"
| "be_words _ = []"

fun chunks16 :: "u32 list \<Rightarrow> u32 list list" where
  "chunks16 [] = []"
| "chunks16 (w # ws) = take 16 (w # ws) # chunks16 (drop 16 (w # ws))"

type_synonym sha1_state = "u32 \<times> u32 \<times> u32 \<times> u32 \<times> u32"

definition sha1_f :: "nat \<Rightarrow> u32 \<Rightarrow> u32 \<Rightarrow> u32 \<Rightarrow> u32" where
  "sha1_f t b c d =
     (if t < 20 then (b AND c) OR (NOT b AND d)
      else if t < 40 then b XOR c XOR d
      else if t < 60 then (b AND c) OR (b AND d) OR (c AND d)
      else b XOR c XOR d)"

definition sha1_k :: "nat \<Rightarrow> u32" where
  "sha1_k t =
     (if t < 20 then 0x5A827999
      else if t < 40 then 0x6ED9EBA1
      else if t < 60 then 0x8F1BBCDC
      else 0xCA62C1D6)"

text \<open>Rotation to the left, as the standard defines it, for \<open>0 < n < 32\<close>.\<close>

definition rotl :: "nat \<Rightarrow> u32 \<Rightarrow> u32" where
  "rotl n x = push_bit n x OR drop_bit (32 - n) x"

text \<open>
  One round. The window holds the sixteen schedule words from round \<open>t\<close> on; the
  round uses its first word and appends the word of round \<open>t + 16\<close>.
\<close>

fun sha1_round :: "nat \<Rightarrow> sha1_state \<times> u32 list \<Rightarrow> sha1_state \<times> u32 list" where
  "sha1_round t ((a, b, c, d, e), win) =
     (let wt = win ! 0;
          new = rotl 1 (win ! 13 XOR win ! 8 XOR win ! 2 XOR win ! 0);
          temp = rotl 5 a + sha1_f t b c d + e + sha1_k t + wt
      in ((temp, a, rotl 30 b, c, d), tl win @ [new]))"

fun sha1_block :: "sha1_state \<Rightarrow> u32 list \<Rightarrow> sha1_state" where
  "sha1_block (h0, h1, h2, h3, h4) blk =
     (case fst (fold sha1_round [0..<80] ((h0, h1, h2, h3, h4), blk)) of
        (a, b, c, d, e) \<Rightarrow> (h0 + a, h1 + b, h2 + c, h3 + d, h4 + e))"

definition sha1_init :: sha1_state where
  "sha1_init = (0x67452301, 0xEFCDAB89, 0x98BADCFE, 0x10325476, 0xC3D2E1F0)"

definition sha1 :: "u8 list \<Rightarrow> sha1_state" where
  "sha1 m = foldl sha1_block sha1_init (chunks16 (be_words (sha1_pad m)))"

definition hex_digit :: "u32 \<Rightarrow> char" where
  "hex_digit n = ''0123456789abcdef'' ! unat (n AND 15)"

definition hex_word :: "u32 \<Rightarrow> string" where
  "hex_word w = map (\<lambda>i. hex_digit (drop_bit (28 - 4 * i) w)) [0..<8]"

definition hexdigest :: "sha1_state \<Rightarrow> string" where
  "hexdigest h =
     (case h of (h0, h1, h2, h3, h4) \<Rightarrow>
        hex_word h0 @ hex_word h1 @ hex_word h2 @ hex_word h3 @ hex_word h4)"

definition sha1_hex :: "string \<Rightarrow> string" where
  "sha1_hex s = hexdigest (sha1 (encode_utf8 s))"

section \<open>The world outside the analyzer\<close>

text \<open>
  The analyzer reads two files, may send one HTTP request and draws random numbers.
  These are the fields of a \<open>world\<close>; what the analyzer does to the world is recorded
  as a list of events, in the order of the calls.
\<close>

datatype path = BreachedPasswordsTxt | RockyouTxt

definition BREACHED_LIST_PATHS :: "path list" where
  "BREACHED_LIST_PATHS = [BreachedPasswordsTxt, RockyouTxt]"

record request =
  url :: string
  headers :: "(string \<times> string) list"

text \<open>
  What \<^verbatim>\<open>urlopen(...)\<close> followed by \<^verbatim>\<open>response.read().decode("utf-8")\<close> does: it
  raises, or it gives the decoded body. A failure to connect, a timeout of the
  connection among them, arrives as a \<^verbatim>\<open>URLError\<close>, an error status as an
  \<^verbatim>\<open>HTTPError\<close>. When the connection was made and the response does not arrive in
  time, the library raises the built-in \<^verbatim>\<open>TimeoutError\<close>, which is no \<^verbatim>\<open>URLError\<close>.
  \<open>OtherException\<close> stands for every other exception.
\<close>

datatype net_exn = URLError | HTTPError | TimeoutError | OtherException

datatype net_outcome = Raises net_exn | Body string

record world =
  read_text :: "path \<Rightarrow> string option"
  urlopen :: "request \<Rightarrow> net_outcome"
  draws :: "nat \<Rightarrow> nat"

text \<open>
  \<open>read_text w p = None\<close> says that \<open>p\<close> does not exist; \<open>draws w k\<close> is the random
  number behind the \<open>k\<close>-th call of \<^verbatim>\<open>secrets.choice\<close>.
\<close>

datatype event = PathExists path | ReadText path | HttpGet request | SecretsChoice nat

text \<open>
  The exceptions that leave the analyzer. The message of the first \<^verbatim>\<open>ValueError\<close> is
  the one of the source; the two raised by the interpreter (unpacking the result of
  \<^verbatim>\<open>split\<close>, and \<^verbatim>\<open>int\<close>) carry a short tag instead of the interpreter's message.
\<close>

datatype error = ValueError string | Propagated net_exn

section \<open>The analyzer\<close>

record PasswordAssessment =
  password :: string
  risk_score :: rat
  label :: string
  reasons :: "string list"
  suggestions :: "string list"
  breached_offline :: bool
  breached_online :: "bool option"
  hibp_count :: "int option"

subsection \<open>\<^verbatim>\<open>_load_breached_passwords\<close>\<close>

definition keep_line :: "string \<Rightarrow> bool" where
  "keep_line line \<longleftrightarrow> strip line \<noteq> [] \<and> \<not> prefix ''#'' (strip line)"

fun load_paths :: "(path \<Rightarrow> string option) \<Rightarrow> path list \<Rightarrow> string set \<times> event list" where
  "load_paths rd [] = ({}, [])"
| "load_paths rd (p # ps) =
     (case load_paths rd ps of (rest, evs) \<Rightarrow>
        (case rd p of
           None \<Rightarrow> (rest, PathExists p # evs)
         | Some text \<Rightarrow>
             (set (map (\<lambda>line. lower (strip line)) (filter keep_line (splitlines text))) \<union> rest,
              PathExists p # ReadText p # evs)))"

definition load_breached_passwords :: "world \<Rightarrow> string set \<times> event list" where
  "load_breached_passwords w = load_paths (read_text w) BREACHED_LIST_PATHS"

subsection \<open>The heuristics\<close>

definition sequences :: "string list" where
  "sequences =
     [ascii_lowercase, ascii_uppercase, digits, ''qwertyuiop'', ''asdfghjkl'', ''zxcvbnm'']"

definition contains_sequence :: "string \<Rightarrow> bool" where
  "contains_sequence pw =
     list_ex (\<lambda>seq. list_ex (\<lambda>i. sublist (take 3 (drop i seq)) pw) [0..<length seq - 2])
       sequences"

definition contains_repetition :: "string \<Rightarrow> bool" where
  "contains_repetition pw =
     (if card (set pw) \<le> max 1 (length pw div 4) then True
      else list_ex (\<lambda>c. sublist [c, c, c] pw) (remdups pw))"

definition substitutions :: "(char \<times> char) list" where
  "substitutions =
     [(CHR ''@'', CHR ''a''), (CHR ''0'', CHR ''o''), (CHR ''1'', CHR ''l''),
      (CHR ''3'', CHR ''e''), (CHR ''$'', CHR ''s''), (CHR ''!'', CHR ''i'')]"

definition common_words :: "string list" where
  "common_words = [''password'', ''admin'', ''welcome'', ''dragon'', ''football'', ''monkey'']"

definition check_substitutions :: "string \<Rightarrow> bool" where
  "check_substitutions pw =
     (let normalized =
            map (\<lambda>c. case map_of substitutions c of Some d \<Rightarrow> d | None \<Rightarrow> c) (lower pw)
      in list_ex (\<lambda>word. sublist word normalized) common_words)"

definition format_risk_label :: "rat \<Rightarrow> string" where
  "format_risk_label score =
     (if lit (75 / 100) \<le> score then ''high''
      else if lit (45 / 100) \<le> score then ''medium''
      else ''low'')"

subsection \<open>\<^verbatim>\<open>_generate_suggestions\<close>\<close>

definition choice :: "'a list \<Rightarrow> nat \<Rightarrow> 'a" where
  "choice seq r = seq ! (r mod length seq)"

definition suggestion_words :: "string list" where
  "suggestion_words = [''orbit'', ''cobalt'', ''harbor'', ''falcon'', ''ember'', ''sage'', ''vivid'']"

text \<open>One turn of the loop; \<open>k\<close> counts the calls of \<^verbatim>\<open>secrets.choice\<close> made so far.\<close>

definition one_suggestion :: "(nat \<Rightarrow> nat) \<Rightarrow> nat \<Rightarrow> string" where
  "one_suggestion rnd k =
     (let word = choice suggestion_words (rnd k);
          suffix = [choice digits (rnd (k + 1)), choice digits (rnd (k + 2))];
          symbol = choice ''!@#$%'' (rnd (k + 3))
      in capitalize word @ [symbol] @ suffix @ [choice ascii_letters (rnd (k + 4))])"

definition generate_suggestions :: "(nat \<Rightarrow> nat) \<Rightarrow> string \<Rightarrow> nat \<Rightarrow> string list \<times> event list" where
  "generate_suggestions rnd pw count =
     (let suggestions = map (\<lambda>i. one_suggestion rnd (5 * i)) [0..<count]
      in (if suggestions = [] then [pw] else suggestions,
          map SecretsChoice [0..<5 * count]))"

subsection \<open>\<^verbatim>\<open>_offline_breach_match\<close>\<close>

definition offline_breach_match :: "string \<Rightarrow> string set \<Rightarrow> bool" where
  "offline_breach_match pw breached_set =
     (let normalized = lower (strip pw) in
      if normalized \<in> breached_set then True
      else if \<exists>entry \<in> breached_set. entry \<noteq> [] \<and> sublist entry normalized then True
      else False)"

subsection \<open>\<^verbatim>\<open>_hibp_lookup\<close>\<close>

text \<open>Lines 120 and 121: the request, built from the first five characters alone.\<close>

definition range_request :: "string \<Rightarrow> request" where
  "range_request pfx =
     \<lparr>url = ''https://api.pwnedpasswords.com/range/'' @ pfx,
      headers = [(''User-Agent'', ''PasswordStrengthAnalyzer'')]\<rparr>"

definition hibp_request :: "string \<Rightarrow> request" where
  "hibp_request pw =
     (let sha1_hash = upper (sha1_hex pw);
          pfx = take 5 sha1_hash
      in range_request pfx)"

text \<open>
  The loop over the lines of the body. Unpacking \<^verbatim>\<open>line.split(":")\<close> into two names
  raises unless there are exactly two parts; \<^verbatim>\<open>int\<close> is only called on a line whose
  first part is the suffix, and the loop ends there.
\<close>

fun scan_lines :: "string \<Rightarrow> string list \<Rightarrow> error + bool \<times> int option" where
  "scan_lines sfx [] = Inr (False, Some 0)"
| "scan_lines sfx (line # rest) =
     (if line = [] then scan_lines sfx rest
      else
        (case split_on CHR '':'' line of
           [candidate_suffix, count] \<Rightarrow>
             if upper (strip candidate_suffix) = sfx then
               (case py_int (strip count) of
                  Some n \<Rightarrow> Inr (True, Some n)
                | None \<Rightarrow> Inl (ValueError ''int''))
             else scan_lines sfx rest
         | _ \<Rightarrow> Inl (ValueError ''unpack'')))"

definition hibp_lookup :: "world \<Rightarrow> string \<Rightarrow> (error + bool \<times> int option) \<times> event list" where
  "hibp_lookup w pw =
     (let sha1_hash = upper (sha1_hex pw);
          suffix = drop 5 sha1_hash;
          req = hibp_request pw
      in ((case urlopen w req of
             Raises e \<Rightarrow>
               if e = URLError \<or> e = HTTPError then Inr (False, None)
               else Inl (Propagated e)
           | Body body \<Rightarrow> scan_lines suffix (splitlines body)),
          [HttpGet req]))"

subsection \<open>\<^verbatim>\<open>assess_password\<close>\<close>

text \<open>
  The pair of \<^verbatim>\<open>score\<close> and \<^verbatim>\<open>reasons\<close>, and the two ways the source changes it:
  \<^verbatim>\<open>score += x; reasons.append(r)\<close>, and \<^verbatim>\<open>reasons.append(r)\<close> alone.
\<close>

type_synonym tally = "rat \<times> string list"

definition add_reason :: "rat \<Rightarrow> string \<Rightarrow> tally \<Rightarrow> tally" where
  "add_reason x r t = (fadd (fst t) x, snd t @ [r])"

definition reason_only :: "string \<Rightarrow> tally \<Rightarrow> tally" where
  "reason_only r t = (fst t, snd t @ [r])"

definition categories :: "string \<Rightarrow> nat" where
  "categories pw =
     of_bool (list_ex islower pw) + of_bool (list_ex isupper pw)
       + of_bool (list_ex isdigit pw) + of_bool (list_ex (\<lambda>c. c \<in> set punctuation) pw)"

text \<open>Lines 143 to 180: the five checks on the password alone.\<close>

definition heuristic_checks :: "string \<Rightarrow> tally" where
  "heuristic_checks pw =
     (let t = (0, []);
          t = (if length pw < 8 then add_reason (lit (4 / 10)) ''Too short (under 8 characters)'' t
               else if length pw < 12 then
                 add_reason (lit (2 / 10)) ''Shorter than recommended (12+ characters)'' t
               else reason_only ''Length meets recommended minimum'' t);
          t = (if categories pw \<le> 2 then add_reason (lit (2 / 10)) ''Limited character variety'' t
               else reason_only ''Uses multiple character categories'' t);
          t = (if contains_sequence (lower pw) then
                 add_reason (lit (15 / 100)) ''Contains sequential or keyboard patterns'' t
               else t);
          t = (if contains_repetition pw then
                 add_reason (lit (15 / 100)) ''Contains repeated characters or low entropy'' t
               else t);
          t = (if check_substitutions pw then
                 add_reason (lit (15 / 100)) ''Uses predictable substitutions of common words'' t
               else t)
      in t)"

text \<open>Lines 182 to 184.\<close>

definition offline_check :: "bool \<Rightarrow> tally \<Rightarrow> tally" where
  "offline_check breached_off t =
     (if breached_off then
        add_reason (lit (3 / 10)) ''Matches an offline breached password pattern'' t
      else t)"

text \<open>Lines 190 to 196, on the pair the lookup returned.\<close>

definition online_check :: "bool \<times> int option \<Rightarrow> tally \<Rightarrow> tally" where
  "online_check r t =
     (case r of (breached_on, count) \<Rightarrow>
        if breached_on then
          add_reason (lit (35 / 100)) ''Found in Have I Been Pwned password corpus'' t
        else if count = Some 0 then
          reason_only ''Not found in Have I Been Pwned password corpus'' t
        else reason_only ''Have I Been Pwned lookup unavailable'' t)"

text \<open>Lines 198 to 212: clamp, label, suggestions, and the record.\<close>

definition finish ::
  "world \<Rightarrow> string \<Rightarrow> bool \<Rightarrow> bool option \<Rightarrow> int option \<Rightarrow> tally
     \<Rightarrow> PasswordAssessment \<times> event list" where
  "finish w pw breached_off breached_on count t =
     (let score = min (fst t) 1;
          lbl = format_risk_label score;
          (sugg, evs) = generate_suggestions (draws w) pw 3
      in (\<lparr>password = pw, risk_score = score, label = lbl, reasons = snd t,
           suggestions = sugg, breached_offline = breached_off,
           breached_online = breached_on, hibp_count = count\<rparr>, evs))"

definition assess_password ::
  "world \<Rightarrow> string \<Rightarrow> bool \<Rightarrow> (error + PasswordAssessment) \<times> event list" where
  "assess_password w pw include_hibp =
     (if pw = [] then (Inl (ValueError ''Password must be provided''), [])
      else
        let (breached_set, evs1) = load_breached_passwords w;
            breached_off = offline_breach_match pw breached_set;
            t = offline_check breached_off (heuristic_checks pw)
        in
          if include_hibp then
            (case hibp_lookup w pw of
               (Inl e, evs2) \<Rightarrow> (Inl e, evs1 @ evs2)
             | (Inr r, evs2) \<Rightarrow>
                 (case finish w pw breached_off (Some (fst r)) (snd r) (online_check r t) of
                    (a, evs3) \<Rightarrow> (Inr a, evs1 @ evs2 @ evs3)))
          else
            (case finish w pw breached_off None None t of
               (a, evs3) \<Rightarrow> (Inr a, evs1 @ evs3)))"

section \<open>Vocabulary for the properties\<close>

text \<open>An entry with a character that is not white space at each end.\<close>

definition trimmed :: "string \<Rightarrow> bool" where
  "trimmed e \<longleftrightarrow> e \<noteq> [] \<and> \<not> isspace (hd e) \<and> \<not> isspace (last e)"

text \<open>The two alphabets of a hexadecimal digest.\<close>

definition is_lower_hex :: "char \<Rightarrow> bool" where
  "is_lower_hex c \<longleftrightarrow> c \<in> set ''0123456789abcdef''"

definition is_upper_hex :: "char \<Rightarrow> bool" where
  "is_upper_hex c \<longleftrightarrow> c \<in> set ''0123456789ABCDEF''"

text \<open>
  A record of the response body in the words of the interface: a suffix and a decimal
  count with exactly one colon between them, the count within the interpreter's limit
  on digits. \<open>first_decisive\<close> is the first line that
  is not empty and either has not exactly one colon or carries the suffix looked for.
\<close>

definition colon_count :: "string \<Rightarrow> nat" where
  "colon_count line = length (filter (\<lambda>c. c = CHR '':'') line)"

definition before_colon :: "string \<Rightarrow> string" where
  "before_colon line = takeWhile (\<lambda>c. c \<noteq> CHR '':'') line"

definition after_colon :: "string \<Rightarrow> string" where
  "after_colon line = tl (dropWhile (\<lambda>c. c \<noteq> CHR '':'') line)"

definition record_line :: "string \<Rightarrow> bool" where
  "record_line line \<longleftrightarrow>
     colon_count line = 1 \<and> after_colon line \<noteq> [] \<and> list_all is_decimal (after_colon line)
     \<and> length (after_colon line) \<le> int_max_str_digits"

definition first_decisive :: "string \<Rightarrow> string list \<Rightarrow> string option" where
  "first_decisive sfx lines =
     find (\<lambda>line. line \<noteq> [] \<and> (colon_count line \<noteq> 1 \<or> upper (strip (before_colon line)) = sfx))
       lines"

text \<open>The requests among the events of a run.\<close>

definition requests_of :: "event list \<Rightarrow> request list" where
  "requests_of evs = concat (map (\<lambda>e. case e of HttpGet r \<Rightarrow> [r] | _ \<Rightarrow> []) evs)"

section \<open>Example worlds\<close>

text \<open>
  A world with neither file, in which every request fails with a \<^verbatim>\<open>URLError\<close>, and
  a variant of any world in which every request is answered with a given body.
\<close>

definition quiet_world :: world where
  "quiet_world = \<lparr>read_text = (\<lambda>p. None), urlopen = (\<lambda>r. Raises URLError), draws = (\<lambda>k. k)\<rparr>"

definition answering :: "string \<Rightarrow> world \<Rightarrow> world" where
  "answering body w = w\<lparr>urlopen := (\<lambda>r. Body body)\<rparr>"

text \<open>A world whose first file holds a comment and two entries.\<close>

definition corpus_world :: world where
  "corpus_world =
     \<lparr>read_text = (\<lambda>p. if p = BreachedPasswordsTxt
                         then Some (''# common'' @ [chr_of 10] @ '' Password '' @ [chr_of 10] @ ''123456'')
                         else None),
      urlopen = (\<lambda>r. Raises URLError), draws = (\<lambda>k. k)\<rparr>"

text \<open>
  A world whose second file holds a comment only, in which every request fails with
  an \<^verbatim>\<open>HTTPError\<close>, and with other random numbers.
\<close>

definition comment_world :: world where
  "comment_world =
     \<lparr>read_text = (\<lambda>p. if p = RockyouTxt then Some (''# nothing here'' @ [chr_of 10]) else None),
      urlopen = (\<lambda>r. Raises HTTPError), draws = (\<lambda>k. 7 * k + 3)\<rparr>"

text \<open>The world without files in which the response to every request times out.\<close>

definition stalled_world :: world where
  "stalled_world = quiet_world\<lparr>urlopen := (\<lambda>r. Raises TimeoutError)\<rparr>"

text \<open>A body of two well-formed records.\<close>

definition body_ok :: string where
  "body_ok = ''0018A45C4D1DEF81644B54AB7F969B88D65:3'' @ [chr_of 10] @ ''AB:12''"

text \<open>
  A body of one record: the suffix looked for when the password is \<^verbatim>\<open>password\<close>, and a
  count of 4301 digits.
\<close>

definition overlong_body :: string where
  "overlong_body = drop 5 (upper (sha1_hex ''password'')) @ '':'' @ replicate 4301 (CHR ''7'')"

section \<open>Facts about the float model\<close>

lemma pow2_pos: "0 < pow2 k"
  by (simp add: pow2_def)

lemma round_half_even_nonneg: "0 \<le> q \<Longrightarrow> 0 \<le> round_half_even q"
  by (auto simp: round_half_even_def Let_def)

lemma fround_nonneg: "0 \<le> x \<Longrightarrow> 0 \<le> fround x"
proof -
  assume x: "0 \<le> x"
  show ?thesis
  proof (cases "x = 0")
    case True
    then show ?thesis by (simp add: fround_def)
  next
    case False
    with x have pos: "0 < x" by simp
    let ?u = "pow2 (ilog2 \<bar>x\<bar> - 52)"
    have "0 \<le> \<bar>x\<bar> / ?u" using pow2_pos [of "ilog2 \<bar>x\<bar> - 52"] by simp
    then have "0 \<le> round_half_even (\<bar>x\<bar> / ?u)" by (rule round_half_even_nonneg)
    then have "0 \<le> (of_int (round_half_even (\<bar>x\<bar> / ?u)) :: rat) * ?u"
      using pow2_pos [of "ilog2 \<bar>x\<bar> - 52"] by simp
    with pos show ?thesis by (simp add: fround_def Let_def)
  qed
qed

lemma lit_nonneg: "0 \<le> r \<Longrightarrow> 0 \<le> lit r"
  by (simp add: lit_def fround_nonneg)

lemma add_reason_nonneg: "0 \<le> fst t \<Longrightarrow> 0 \<le> x \<Longrightarrow> 0 \<le> fst (add_reason x r t)"
  by (simp add: add_reason_def fadd_def fround_nonneg)

lemma reason_only_fst: "fst (reason_only r t) = fst t"
  by (simp add: reason_only_def)

lemma heuristic_checks_nonneg: "0 \<le> fst (heuristic_checks pw)"
  unfolding heuristic_checks_def Let_def
  by (intro add_reason_nonneg lit_nonneg | simp add: reason_only_fst split del: if_split | rule if_split [THEN iffD2, OF conjI, OF impI impI])+

lemma offline_check_nonneg: "0 \<le> fst t \<Longrightarrow> 0 \<le> fst (offline_check b t)"
  by (simp add: offline_check_def add_reason_nonneg lit_nonneg)

lemma online_check_nonneg: "0 \<le> fst t \<Longrightarrow> 0 \<le> fst (online_check r t)"
  by (cases r) (simp add: online_check_def add_reason_nonneg lit_nonneg reason_only_fst)

section \<open>The shape of a run\<close>

text \<open>What \<open>finish\<close> puts into the record.\<close>

lemma finish_fields:
  "risk_score (fst (finish w pw bo bn c t)) = min (fst t) 1"
  "label (fst (finish w pw bo bn c t)) = format_risk_label (min (fst t) 1)"
  "reasons (fst (finish w pw bo bn c t)) = snd t"
  "breached_offline (fst (finish w pw bo bn c t)) = bo"
  "breached_online (fst (finish w pw bo bn c t)) = bn"
  "hibp_count (fst (finish w pw bo bn c t)) = c"
  "password (fst (finish w pw bo bn c t)) = pw"
  by (simp_all add: finish_def Let_def split: prod.split)

text \<open>The two shapes of a run on a password that is not empty.\<close>

lemma assess_offline:
  "pw \<noteq> [] \<Longrightarrow>
   fst (assess_password w pw False) =
     Inr (fst (finish w pw (offline_breach_match pw (fst (load_breached_passwords w))) None None
       (offline_check (offline_breach_match pw (fst (load_breached_passwords w)))
          (heuristic_checks pw))))"
  by (simp add: assess_password_def Let_def split: prod.split)

lemma assess_online:
  "pw \<noteq> [] \<Longrightarrow>
   fst (assess_password w pw True) =
     (case fst (hibp_lookup w pw) of
        Inl e \<Rightarrow> Inl e
      | Inr r \<Rightarrow>
          Inr (fst (finish w pw (offline_breach_match pw (fst (load_breached_passwords w)))
            (Some (fst r)) (snd r)
            (online_check r
               (offline_check (offline_breach_match pw (fst (load_breached_passwords w)))
                  (heuristic_checks pw))))))"
  by (simp add: assess_password_def Let_def split: prod.split sum.split)

lemma assess_Inr_cases:
  assumes "fst (assess_password w pw h) = Inr a"
  obtains bo bn c t where
    "a = fst (finish w pw bo bn c t)" "0 \<le> fst t"
proof -
  from assms have ne: "pw \<noteq> []" by (auto simp: assess_password_def)
  show ?thesis
  proof (cases h)
    case False
    with assms ne assess_offline [of pw w] show ?thesis
      by (auto intro!: that offline_check_nonneg heuristic_checks_nonneg)
  next
    case True
    with assms ne assess_online [of pw w] show ?thesis
      by (auto split: sum.splits intro!: that online_check_nonneg offline_check_nonneg
          heuristic_checks_nonneg)
  qed
qed

lemma label_of_score:
  "fst (assess_password w pw h) = Inr a \<Longrightarrow> label a = format_risk_label (risk_score a)"
  by (erule assess_Inr_cases) (simp add: finish_fields)

lemma step_function_order:
  fixes s :: rat
  shows "t1 \<le> t2 \<Longrightarrow>
    (if t2 \<le> s then H else if t1 \<le> s then M else L) =
    (if s < t1 then L else if s < t2 then M else H)"
  by auto

lemma thresholds_ordered: "lit (45 / 100) \<le> lit (75 / 100)"
  by code_simp

lemma hibp_lookup_unavailable:
  "urlopen w (hibp_request pw) = Raises e \<Longrightarrow> e = URLError \<or> e = HTTPError \<Longrightarrow>
   fst (hibp_lookup w pw) = Inr (False, None)"
  by (auto simp: hibp_lookup_def Let_def)

lemma hibp_lookup_propagates:
  "urlopen w (hibp_request pw) = Raises e \<Longrightarrow> e \<noteq> URLError \<Longrightarrow> e \<noteq> HTTPError \<Longrightarrow>
   fst (hibp_lookup w pw) = Inl (Propagated e)"
  by (simp add: hibp_lookup_def Let_def)

text \<open>
  A failure that reaches the \<^verbatim>\<open>except\<close> clause as a \<^verbatim>\<open>URLError\<close> or an \<^verbatim>\<open>HTTPError\<close>
  is not fatal: the assessment differs from the one without the lookup only by the
  reason \<^verbatim>\<open>Have I Been Pwned lookup unavailable\<close> at the end.
\<close>

lemma caught_failure_is_not_fatal:
  assumes "pw \<noteq> []"
    and "urlopen w (hibp_request pw) = Raises e"
    and "e = URLError \<or> e = HTTPError"
  shows "\<exists>a a0.
    fst (assess_password w pw True) = Inr a \<and>
    fst (assess_password w pw False) = Inr a0 \<and>
    breached_online a = Some False \<and>
    hibp_count a = None \<and>
    reasons a = reasons a0 @ [''Have I Been Pwned lookup unavailable''] \<and>
    risk_score a = risk_score a0 \<and>
    label a = label a0"
proof -
  have lk: "fst (hibp_lookup w pw) = Inr (False, None)"
    using assms(2,3) by (rule hibp_lookup_unavailable)
  have oc: "online_check (False, None) t = reason_only ''Have I Been Pwned lookup unavailable'' t" for t
    by (simp add: online_check_def)
  show ?thesis
    using assms(1)
    by (simp add: assess_online assess_offline lk oc finish_fields reason_only_def)
qed

lemma timeout_is_fatal:
  "fst (assess_password (w\<lparr>urlopen := (\<lambda>r. Raises TimeoutError)\<rparr>) (c # cs) True) =
     Inl (Propagated TimeoutError)"
proof -
  have "fst (hibp_lookup (w\<lparr>urlopen := (\<lambda>r. Raises TimeoutError)\<rparr>) (c # cs)) =
      Inl (Propagated TimeoutError)"
    by (rule hibp_lookup_propagates) simp_all
  then show ?thesis by (simp add: assess_online)
qed

section \<open>The two scenario passwords\<close>

lemma aaa_heuristics:
  "heuristic_checks ''aaa'' =
     add_reason (lit (15 / 100)) ''Contains repeated characters or low entropy''
       (add_reason (lit (2 / 10)) ''Limited character variety''
         (add_reason (lit (4 / 10)) ''Too short (under 8 characters)'' (0, [])))"
  by code_simp

lemma aaa_reasons:
  "snd (heuristic_checks ''aaa'') =
     [''Too short (under 8 characters)'', ''Limited character variety'',
      ''Contains repeated characters or low entropy'']"
  unfolding aaa_heuristics by (simp add: add_reason_def)

lemma aaa_scores:
  "lit (75 / 100) \<le> fst (heuristic_checks ''aaa'')"
  "lit (75 / 100) \<le> fadd (fst (heuristic_checks ''aaa'')) (lit (3 / 10))"
  "lit (75 / 100) \<le> fadd (fst (heuristic_checks ''aaa'')) (lit (35 / 100))"
  "lit (75 / 100) \<le> fadd (fadd (fst (heuristic_checks ''aaa'')) (lit (3 / 10))) (lit (35 / 100))"
  unfolding aaa_heuristics add_reason_def fst_conv by code_simp+

lemma one_above: "lit (75 / 100) \<le> 1" "lit (45 / 100) \<le> lit (75 / 100)"
  by code_simp+

lemma reasons_kept_offline: "prefix (snd t) (snd (offline_check b t))"
  by (simp add: offline_check_def add_reason_def)

lemma reasons_kept_online: "prefix (snd t) (snd (online_check r t))"
  by (cases r) (simp add: online_check_def add_reason_def reason_only_def)

lemma offline_check_fst:
  "fst (offline_check b t) = (if b then fadd (fst t) (lit (3 / 10)) else fst t)"
  by (simp only: offline_check_def add_reason_def fst_conv if_distrib [of fst] cong: if_cong)

lemma online_check_fst:
  "fst (online_check r t) = (if fst r then fadd (fst t) (lit (35 / 100)) else fst t)"
  by (cases r) (simp only: online_check_def add_reason_def reason_only_def fst_conv prod.case
      if_distrib [of fst] if_cancel cong: if_cong)

lemma assess_Inr_shape:
  assumes "fst (assess_password w pw h) = Inr a"
  obtains t where
    "reasons a = snd t"
    "risk_score a = min (fst t) 1"
    "label a = format_risk_label (min (fst t) 1)"
    "prefix (snd (heuristic_checks pw)) (snd t)"
    "fst t =
       (let s = fst (heuristic_checks pw);
            s = (if breached_offline a then fadd s (lit (3 / 10)) else s);
            s = (if breached_online a = Some True then fadd s (lit (35 / 100)) else s)
        in s)"
proof -
  from assms have ne: "pw \<noteq> []" by (auto simp: assess_password_def)
  let ?b = "offline_breach_match pw (fst (load_breached_passwords w))"
  show ?thesis
  proof (cases h)
    case False
    with assms ne have a: "a = fst (finish w pw ?b None None (offline_check ?b (heuristic_checks pw)))"
      by (simp add: assess_offline)
    show ?thesis
      by (rule that [of "offline_check ?b (heuristic_checks pw)"])
        (simp_all only: a finish_fields reasons_kept_offline offline_check_fst Let_def
          option.simps if_False)
  next
    case True
    with assms ne obtain r where
      a: "a = fst (finish w pw ?b (Some (fst r)) (snd r)
             (online_check r (offline_check ?b (heuristic_checks pw))))"
      by (auto simp: assess_online split: sum.splits)
    have p: "prefix (snd (heuristic_checks pw))
        (snd (online_check r (offline_check ?b (heuristic_checks pw))))"
      using reasons_kept_offline reasons_kept_online by (rule prefix_order.trans)
    show ?thesis
      by (rule that [of "online_check r (offline_check ?b (heuristic_checks pw))"])
        (simp_all only: a finish_fields p online_check_fst offline_check_fst Let_def
          option.inject simp_thms)
  qed
qed

lemma assess_Inl_cases:
  "fst (assess_password w pw h) = Inl e \<Longrightarrow> pw \<noteq> [] \<Longrightarrow> h \<and> fst (hibp_lookup w pw) = Inl e"
  using assess_offline [of pw w] assess_online [of pw w]
  by (cases h) (auto split: sum.splits)

lemma later_reasons_offline:
  obtains extra where "snd (offline_check b t) = snd t @ extra"
    "set extra \<subseteq> {''Matches an offline breached password pattern''}"
  by (cases b) (simp_all add: offline_check_def add_reason_def)

lemma later_reasons_online:
  obtains extra where "snd (online_check r t) = snd t @ extra"
    "set extra \<subseteq> {''Found in Have I Been Pwned password corpus'',
       ''Not found in Have I Been Pwned password corpus'',
       ''Have I Been Pwned lookup unavailable''}"
proof (cases r)
  case (Pair found count)
  show ?thesis
  proof (cases found)
    case True
    with Pair show ?thesis
      by (intro that [of "[''Found in Have I Been Pwned password corpus'']"])
        (simp_all add: online_check_def add_reason_def)
  next
    case f: False
    show ?thesis
    proof (cases "count = Some 0")
      case True
      with Pair f show ?thesis
        by (intro that [of "[''Not found in Have I Been Pwned password corpus'']"])
          (simp_all add: online_check_def reason_only_def)
    next
      case False
      with Pair f show ?thesis
        by (intro that [of "[''Have I Been Pwned lookup unavailable'']"])
          (simp_all add: online_check_def reason_only_def)
    qed
  qed
qed

lemma later_reasons_join:
  "set e1 \<subseteq> {x} \<Longrightarrow> set e2 \<subseteq> {y, z, u} \<Longrightarrow> set (e1 @ e2) \<subseteq> {x, y, z, u}"
  by auto

lemma later_reasons_weaken:
  "set e1 \<subseteq> {x} \<Longrightarrow> set e1 \<subseteq> {x, y, z, u}"
  by auto

lemma assess_Inr_reasons:
  assumes "fst (assess_password w pw h) = Inr a"
  obtains extra where "reasons a = snd (heuristic_checks pw) @ extra"
    "set extra \<subseteq> {''Matches an offline breached password pattern'',
       ''Found in Have I Been Pwned password corpus'',
       ''Not found in Have I Been Pwned password corpus'',
       ''Have I Been Pwned lookup unavailable''}"
proof -
  from assms have ne: "pw \<noteq> []" by (auto simp: assess_password_def)
  let ?b = "offline_breach_match pw (fst (load_breached_passwords w))"
  obtain e1 where e1: "snd (offline_check ?b (heuristic_checks pw)) = snd (heuristic_checks pw) @ e1"
    "set e1 \<subseteq> {''Matches an offline breached password pattern''}"
    by (rule later_reasons_offline)
  show ?thesis
  proof (cases h)
    case False
    with assms ne have "reasons a = snd (offline_check ?b (heuristic_checks pw))"
      by (auto simp: assess_offline finish_fields)
    then have "reasons a = snd (heuristic_checks pw) @ e1"
      unfolding e1(1) .
    then show ?thesis using later_reasons_weaken [OF e1(2)] by (rule that)
  next
    case True
    with assms ne obtain r where
      r: "reasons a = snd (online_check r (offline_check ?b (heuristic_checks pw)))"
      by (auto simp: assess_online finish_fields split: sum.splits)
    obtain e2 where e2:
      "snd (online_check r (offline_check ?b (heuristic_checks pw))) =
         snd (offline_check ?b (heuristic_checks pw)) @ e2"
      "set e2 \<subseteq> {''Found in Have I Been Pwned password corpus'',
       ''Not found in Have I Been Pwned password corpus'',
       ''Have I Been Pwned lookup unavailable''}"
      by (rule later_reasons_online)
    have "reasons a = snd (heuristic_checks pw) @ (e1 @ e2)"
      unfolding r e2(1) e1(1) by (rule append_assoc)
    then show ?thesis using later_reasons_join [OF e1(2) e2(2)] by (rule that)
  qed
qed

lemma p11_heuristics:
  "heuristic_checks ''P@ssw0rd123'' =
     add_reason (lit (15 / 100)) ''Uses predictable substitutions of common words''
       (add_reason (lit (15 / 100)) ''Contains sequential or keyboard patterns''
         (reason_only ''Uses multiple character categories''
           (add_reason (lit (2 / 10)) ''Shorter than recommended (12+ characters)'' (0, []))))"
  by code_simp

lemma p11_sum: "fadd (fadd (fadd 0 (lit (2 / 10))) (lit (15 / 100))) (lit (15 / 100)) = 1 / 2"
  by code_simp

lemma p11_tally:
  "fst (heuristic_checks ''P@ssw0rd123'') = 1 / 2"
  "snd (heuristic_checks ''P@ssw0rd123'') =
     [''Shorter than recommended (12+ characters)'', ''Uses multiple character categories'',
      ''Contains sequential or keyboard patterns'',
      ''Uses predictable substitutions of common words'']"
proof -
  show "fst (heuristic_checks ''P@ssw0rd123'') = 1 / 2"
    unfolding p11_heuristics add_reason_def reason_only_def fst_conv by (rule p11_sum)
  show "snd (heuristic_checks ''P@ssw0rd123'') =
     [''Shorter than recommended (12+ characters)'', ''Uses multiple character categories'',
      ''Contains sequential or keyboard patterns'',
      ''Uses predictable substitutions of common words'']"
    unfolding p11_heuristics by (simp add: add_reason_def reason_only_def)
qed

lemma quiet_world_corpus: "fst (load_breached_passwords quiet_world) = {}"
  by (simp add: load_breached_passwords_def quiet_world_def BREACHED_LIST_PATHS_def)

lemma no_match_in_empty_corpus: "offline_breach_match pw {} = False"
  by (simp add: offline_breach_match_def)

section \<open>The offline matcher\<close>

lemma isspace_lower_char: "isspace (lower_char c) = isspace c"
proof (cases "isupper c")
  case False
  then show ?thesis by (simp add: lower_char_def)
next
  case True
  then have "cp c + 32 < 256" by (auto simp: isupper_def)
  then have "cp (chr_of (cp c + 32)) = cp c + 32"
    by (simp add: cp_def chr_of_def)
  with True show ?thesis
    by (auto simp: lower_char_def isspace_def isupper_def)
qed

lemma dropWhile_isspace_lower:
  "dropWhile isspace (lower s) = lower (dropWhile isspace s)"
  by (simp add: lower_def dropWhile_map comp_def isspace_lower_char)

lemma lower_rev: "lower (rev s) = rev (lower s)"
  by (simp add: lower_def rev_map)

lemma lower_strip: "lower (strip s) = strip (lower s)"
  by (simp add: strip_def dropWhile_isspace_lower lower_rev [symmetric])

lemma sublist_strip: "sublist (strip s) s"
proof -
  have "suffix (dropWhile isspace (rev (dropWhile isspace s))) (rev (dropWhile isspace s))"
    by (rule suffix_dropWhile)
  then have "prefix (strip s) (dropWhile isspace s)"
    unfolding strip_def by (simp add: suffix_to_prefix)
  then have "sublist (strip s) (dropWhile isspace s)" by (rule prefix_imp_sublist)
  moreover have "sublist (dropWhile isspace s) s" by (rule sublist_dropWhile)
  ultimately show ?thesis by (rule sublist_order.order.trans)
qed

lemma dropWhile_keeps:
  assumes "e \<noteq> []" "\<not> P (hd e)"
  shows "\<exists>ps'. dropWhile P (ps @ e @ ss) = ps' @ e @ ss"
proof (cases "\<forall>x\<in>set ps. P x")
  case True
  from assms obtain c cs where e: "e = c # cs" "\<not> P c" by (cases e) auto
  from True have "dropWhile P (ps @ e @ ss) = dropWhile P (e @ ss)"
    by (simp add: dropWhile_append)
  also have "\<dots> = e @ ss" using e by simp
  finally show ?thesis by (intro exI [of _ "[]"]) simp
next
  case False
  then have "dropWhile P (ps @ e @ ss) = dropWhile P ps @ e @ ss"
    by (auto simp: dropWhile_append)
  then show ?thesis by blast
qed

lemma trimmed_sublist_strip:
  assumes "trimmed e" "sublist e s"
  shows "sublist e (strip s)"
proof -
  from assms(1) have e: "e \<noteq> []" "\<not> isspace (hd e)" "\<not> isspace (last e)"
    by (simp_all add: trimmed_def)
  from assms(2) obtain ps ss where s: "s = ps @ e @ ss" by (auto simp: sublist_def)
  from dropWhile_keeps [of e isspace ps ss] e obtain ps' where
    1: "dropWhile isspace s = ps' @ e @ ss" unfolding s by blast
  have re: "rev e \<noteq> []" "\<not> isspace (hd (rev e))" using e by (simp_all add: hd_rev)
  from dropWhile_keeps [of "rev e" isspace "rev ss" "rev ps'"] re obtain ss' where
    2: "dropWhile isspace (rev ss @ rev e @ rev ps') = ss' @ rev e @ rev ps'" by blast
  have "strip s = ps' @ e @ rev ss'"
    unfolding strip_def 1 using 2 by simp
  then show ?thesis by (auto simp: sublist_def)
qed

lemma trimmed_strip: "strip s \<noteq> [] \<Longrightarrow> trimmed (strip s)"
proof -
  assume ne: "strip s \<noteq> []"
  let ?d = "dropWhile isspace (rev (dropWhile isspace s))"
  from ne have d: "?d \<noteq> []" by (simp add: strip_def)
  then have "\<not> isspace (hd ?d)" by (rule hd_dropWhile)
  then have l: "\<not> isspace (last (strip s))" using d by (simp add: strip_def last_rev)
  from d have dd: "dropWhile isspace s \<noteq> []"
    by (cases "dropWhile isspace s = []") simp_all
  then have h: "\<not> isspace (hd (dropWhile isspace s))" by (rule hd_dropWhile)
  have "suffix ?d (rev (dropWhile isspace s))" by (rule suffix_dropWhile)
  then have "prefix (strip s) (dropWhile isspace s)"
    unfolding strip_def by (simp add: suffix_to_prefix)
  with ne have "hd (strip s) = hd (dropWhile isspace s)"
    by (auto simp: prefix_def)
  with h l ne show ?thesis by (simp add: trimmed_def)
qed

lemma trimmed_lower: "trimmed e \<Longrightarrow> trimmed (lower e)"
  by (cases e) (auto simp: trimmed_def lower_def isspace_lower_char last_map)

lemma load_paths_trimmed: "entry \<in> fst (load_paths rd ps) \<Longrightarrow> trimmed entry"
proof (induction ps)
  case Nil
  then show ?case by simp
next
  case (Cons p ps)
  then show ?case
    by (auto simp: keep_line_def trimmed_lower trimmed_strip split: prod.splits option.splits)
qed

lemma corpus_trimmed: "entry \<in> fst (load_breached_passwords w) \<Longrightarrow> trimmed entry"
  unfolding load_breached_passwords_def by (rule load_paths_trimmed)

lemma offline_breach_match_iff:
  "offline_breach_match pw S \<longleftrightarrow>
     lower (strip pw) \<in> S \<or> (\<exists>entry\<in>S. entry \<noteq> [] \<and> sublist entry (lower (strip pw)))"
  by (simp add: offline_breach_match_def Let_def)

lemma corpus_match_iff:
  "offline_breach_match pw (fst (load_breached_passwords w)) \<longleftrightarrow>
     lower (strip pw) \<in> fst (load_breached_passwords w) \<or>
     (\<exists>entry\<in>fst (load_breached_passwords w). entry \<noteq> [] \<and> sublist entry (lower pw))"
proof -
  have "sublist entry (lower (strip pw)) \<longleftrightarrow> sublist entry (lower pw)"
    if "entry \<in> fst (load_breached_passwords w)" for entry
  proof
    assume "sublist entry (lower (strip pw))"
    then have "sublist entry (strip (lower pw))" by (simp add: lower_strip)
    then show "sublist entry (lower pw)" using sublist_strip by (rule sublist_order.order.trans)
  next
    assume "sublist entry (lower pw)"
    with corpus_trimmed [OF that] have "sublist entry (strip (lower pw))"
      by (rule trimmed_sublist_strip)
    then show "sublist entry (lower (strip pw))" by (simp add: lower_strip)
  qed
  then show ?thesis unfolding offline_breach_match_iff by blast
qed

lemma offline_check_snd:
  "snd (offline_check b t) =
     snd t @ (if b then [''Matches an offline breached password pattern''] else [])"
  by (simp add: offline_check_def add_reason_def)

lemma assess_Inr_offline:
  assumes "fst (assess_password w pw h) = Inr a"
  obtains extra where
    "breached_offline a = offline_breach_match pw (fst (load_breached_passwords w))"
    "reasons a =
       snd (heuristic_checks pw)
         @ (if breached_offline a then [''Matches an offline breached password pattern''] else [])
         @ extra"
    "set extra \<subseteq> {''Found in Have I Been Pwned password corpus'',
       ''Not found in Have I Been Pwned password corpus'',
       ''Have I Been Pwned lookup unavailable''}"
proof -
  from assms have ne: "pw \<noteq> []" by (auto simp: assess_password_def)
  let ?b = "offline_breach_match pw (fst (load_breached_passwords w))"
  show ?thesis
  proof (cases h)
    case False
    with assms ne have a: "a = fst (finish w pw ?b None None (offline_check ?b (heuristic_checks pw)))"
      by (simp add: assess_offline)
    show ?thesis
      by (rule that [of "[]"]) (simp_all add: a finish_fields offline_check_snd)
  next
    case True
    with assms ne obtain r where
      a: "a = fst (finish w pw ?b (Some (fst r)) (snd r)
             (online_check r (offline_check ?b (heuristic_checks pw))))"
      by (auto simp: assess_online split: sum.splits)
    obtain e2 where e2:
      "snd (online_check r (offline_check ?b (heuristic_checks pw))) =
         snd (offline_check ?b (heuristic_checks pw)) @ e2"
      "set e2 \<subseteq> {''Found in Have I Been Pwned password corpus'',
       ''Not found in Have I Been Pwned password corpus'',
       ''Have I Been Pwned lookup unavailable''}"
      by (rule later_reasons_online)
    have b: "breached_offline a = ?b" by (simp add: a finish_fields)
    have "reasons a = snd (offline_check ?b (heuristic_checks pw)) @ e2"
      unfolding e2(1) [symmetric] by (simp add: a finish_fields)
    then have "reasons a =
       snd (heuristic_checks pw)
         @ (if breached_offline a then [''Matches an offline breached password pattern''] else [])
         @ e2"
      unfolding offline_check_snd b by simp
    with b show ?thesis using e2(2) by (rule that)
  qed
qed

lemma corpus_world_corpus: "fst (load_breached_passwords corpus_world) = {''password'', ''123456''}"
  by code_simp

section \<open>The digest and the lines of a response\<close>

lemma length_hex_word: "length (hex_word w) = 8"
  by (simp add: hex_word_def)

lemma length_sha1_hex: "length (sha1_hex s) = 40"
  by (cases "sha1 (encode_utf8 s)") (simp add: sha1_hex_def hexdigest_def length_hex_word)

lemma length_upper: "length (upper s) = length s"
  by (simp add: upper_def)

lemma length_digest: "length (upper (sha1_hex s)) = 40"
  by (simp add: length_upper length_sha1_hex)

lemma hex_digit_lower: "is_lower_hex (hex_digit n)"
proof -
  have "unat (n AND 15) \<le> unat (15 :: u32)"
    by (rule word_and_le1 [THEN word_le_nat_alt [THEN iffD1]])
  then have "unat (n AND 15) < length ''0123456789abcdef''" by simp
  then show ?thesis unfolding hex_digit_def is_lower_hex_def by (rule nth_mem)
qed

lemma hex_word_lower: "list_all is_lower_hex (hex_word w)"
  by (simp add: hex_word_def list_all_iff hex_digit_lower)

lemma sha1_hex_lower: "list_all is_lower_hex (sha1_hex s)"
  by (cases "sha1 (encode_utf8 s)") (simp add: sha1_hex_def hexdigest_def hex_word_lower)

lemma upper_hex_table: "list_all (\<lambda>c. is_upper_hex (upper_char c)) ''0123456789abcdef''"
  by code_simp

lemma upper_hex: "is_lower_hex c \<Longrightarrow> is_upper_hex (upper_char c)"
proof -
  assume c: "is_lower_hex c"
  have "\<forall>c\<in>set ''0123456789abcdef''. is_upper_hex (upper_char c)"
    using upper_hex_table unfolding list_all_iff .
  then show ?thesis using c unfolding is_lower_hex_def by (rule bspec)
qed

lemma digest_upper_hex: "list_all is_upper_hex (upper (sha1_hex s))"
  using sha1_hex_lower [of s] by (simp add: upper_def list_all_iff upper_hex)

lemma split_on_nonempty: "split_on sep s \<noteq> []"
  by (induction s) (auto split: list.splits)

lemma length_split_on: "length (split_on sep s) = Suc (length (filter (\<lambda>c. c = sep) s))"
proof (induction s)
  case Nil
  then show ?case by simp
next
  case (Cons c cs)
  then show ?case
    using split_on_nonempty [of sep cs] by (auto split: list.splits)
qed

lemma split_on_none: "sep \<notin> set s \<Longrightarrow> split_on sep s = [s]"
  by (induction s) auto

lemma split_on_one:
  "length (filter (\<lambda>c. c = sep) s) = 1 \<Longrightarrow>
   split_on sep s = [takeWhile (\<lambda>c. c \<noteq> sep) s, tl (dropWhile (\<lambda>c. c \<noteq> sep) s)]"
proof (induction s)
  case Nil
  then show ?case by simp
next
  case (Cons c cs)
  show ?case
  proof (cases "c = sep")
    case True
    with Cons.prems have "filter (\<lambda>c. c = sep) cs = []" by simp
    then have "sep \<notin> set cs" by (auto simp: filter_empty_conv)
    with True show ?thesis by (simp add: split_on_none)
  next
    case False
    with Cons show ?thesis by simp
  qed
qed

lemma split_colon_one:
  "colon_count line = 1 \<Longrightarrow> split_on CHR '':'' line = [before_colon line, after_colon line]"
  unfolding colon_count_def before_colon_def after_colon_def by (rule split_on_one)

lemma split_colon_other:
  "colon_count line \<noteq> 1 \<Longrightarrow> length (split_on CHR '':'' line) \<noteq> 2"
  by (simp add: length_split_on colon_count_def)

lemma scan_lines_step:
  "scan_lines sfx (line # rest) =
     (if line = [] then scan_lines sfx rest
      else if colon_count line \<noteq> 1 then Inl (ValueError ''unpack'')
      else if upper (strip (before_colon line)) = sfx then
        (case py_int (strip (after_colon line)) of
           Some n \<Rightarrow> Inr (True, Some n)
         | None \<Rightarrow> Inl (ValueError ''int''))
      else scan_lines sfx rest)"
proof (cases "colon_count line = 1")
  case True
  then show ?thesis by (simp add: split_colon_one)
next
  case False
  then have "length (split_on CHR '':'' line) \<noteq> 2" by (rule split_colon_other)
  then have "case split_on CHR '':'' line of [a, b] \<Rightarrow> False | _ \<Rightarrow> True"
    by (auto split: list.splits)
  with False show ?thesis by (auto split: list.splits)
qed

lemma scan_lines_decided:
  "scan_lines sfx lines =
     (case first_decisive sfx lines of
        None \<Rightarrow> Inr (False, Some 0)
      | Some line \<Rightarrow>
          if colon_count line \<noteq> 1 then Inl (ValueError ''unpack'')
          else (case py_int (strip (after_colon line)) of
                  Some n \<Rightarrow> Inr (True, Some n)
                | None \<Rightarrow> Inl (ValueError ''int'')))"
proof (induction lines)
  case Nil
  then show ?case by (simp add: first_decisive_def)
next
  case (Cons line rest)
  then show ?case
    unfolding scan_lines_step first_decisive_def by (simp del: scan_lines.simps)
qed

lemma decimal_not_space: "is_decimal c \<Longrightarrow> \<not> isspace c"
  by (auto simp: is_decimal_def isspace_def)

lemma strip_id: "s \<noteq> [] \<Longrightarrow> \<not> isspace (hd s) \<Longrightarrow> \<not> isspace (last s) \<Longrightarrow> strip s = s"
proof -
  assume s: "s \<noteq> []" "\<not> isspace (hd s)" "\<not> isspace (last s)"
  then have 1: "dropWhile isspace s = s" by (cases s) auto
  from s have "rev s \<noteq> []" "\<not> isspace (hd (rev s))" by (simp_all add: hd_rev)
  then have "dropWhile isspace (rev s) = rev s" by (cases "rev s") auto
  with 1 show ?thesis by (simp add: strip_def)
qed

lemma digits_ok_decimal: "s \<noteq> [] \<Longrightarrow> list_all is_decimal s \<Longrightarrow> digits_ok s"
proof (induction s rule: digits_ok.induct)
  case 1
  then show ?case by simp
next
  case (2 c)
  then show ?case by simp
next
  case (3 c d cs)
  from "3.prems" have d: "is_decimal d" by simp
  then have "d \<noteq> CHR ''_''" by (auto simp: is_decimal_def cp_def)
  with 3 show ?case by simp
qed

lemma py_int_too_long:
  "int_max_str_digits < length (filter is_decimal (strip s)) \<Longrightarrow> py_int s = None"
  by (simp add: py_int_def Let_def)

lemma py_int_decimal:
  assumes "s \<noteq> []" "list_all is_decimal s" "length s \<le> int_max_str_digits"
  shows "py_int (strip s) = Some (decimal_value s)"
proof -
  from assms(2) have "filter is_decimal s = s" by (simp add: list_all_iff)
  with assms(3) have lim: "\<not> int_max_str_digits < length (filter is_decimal s)" by simp
  from assms have "is_decimal (hd s)" "is_decimal (last s)"
    by (simp_all add: list_all_iff)
  then have e: "\<not> isspace (hd s)" "\<not> isspace (last s)" by (simp_all add: decimal_not_space)
  with assms(1) have st: "strip s = s" by (rule strip_id)
  from assms(1) obtain c cs where s: "s = c # cs" by (cases s) auto
  with assms(2) have "is_decimal c" by simp
  then have c: "c \<noteq> CHR ''-''" "c \<noteq> CHR ''+''" by (auto simp: is_decimal_def cp_def)
  have "digits_ok (c # cs)" using assms(1,2) unfolding s by (rule digits_ok_decimal)
  with c lim show ?thesis unfolding st py_int_def Let_def unfolding st unfolding s by simp
qed

lemma scan_lines_total:
  "list_all (\<lambda>line. line = [] \<or> record_line line) lines \<Longrightarrow> \<exists>r. scan_lines sfx lines = Inr r"
proof (induction lines)
  case Nil
  show ?case by (intro exI [of _ "(False, Some 0)"]) simp
next
  case (Cons line rest)
  then have rest: "\<exists>r. scan_lines sfx rest = Inr r" by simp
  from Cons.prems have "line = [] \<or> record_line line" by simp
  then show ?case
  proof
    assume "line = []"
    with rest show ?thesis by simp
  next
    assume r: "record_line line"
    then have "py_int (strip (after_colon line)) = Some (decimal_value (after_colon line))"
      by (intro py_int_decimal) (simp_all add: record_line_def)
    with r rest show ?thesis
      unfolding scan_lines_step by (auto simp: record_line_def simp del: scan_lines.simps)
  qed
qed

lemma hibp_lookup_body:
  "urlopen w (hibp_request pw) = Body body \<Longrightarrow>
   fst (hibp_lookup w pw) = scan_lines (drop 5 (upper (sha1_hex pw))) (splitlines body)"
  by (simp add: hibp_lookup_def Let_def)

lemma answering_urlopen: "urlopen (answering body w) r = Body body"
  by (simp add: answering_def)

lemma length_suffix: "length (drop 5 (upper (sha1_hex pw))) = 35"
  by (simp add: length_digest)

lemma body_ok_lines: "splitlines body_ok = [''0018A45C4D1DEF81644B54AB7F969B88D65:3'', ''AB:12'']"
  by code_simp

lemma body_ok_records: "list_all (\<lambda>line. line = [] \<or> record_line line) (splitlines body_ok)"
  unfolding body_ok_lines by code_simp

lemma garbage_lines: "splitlines ''garbage'' = [''garbage'']"
  by code_simp

lemma garbage_colons: "colon_count ''garbage'' = 0"
  by code_simp

lemma bad_count_lines: "splitlines ''AB:xyz'' = [''AB:xyz'']"
  by code_simp

lemma bad_count_facts:
  "colon_count ''AB:xyz'' = 1" "upper (strip (before_colon ''AB:xyz'')) = ''AB''"
  "\<not> record_line ''AB:xyz''"
  by code_simp+

lemma bad_count_lookup:
  "fst (hibp_lookup (answering ''AB:xyz'' quiet_world) ''password'') = Inr (False, Some 0)"
proof -
  have "''AB'' \<noteq> drop 5 (upper (sha1_hex ''password''))"
  proof
    assume "''AB'' = drop 5 (upper (sha1_hex ''password''))"
    then have "length ''AB'' = length (drop 5 (upper (sha1_hex ''password'')))"
      by (rule arg_cong)
    then show False unfolding length_suffix by simp
  qed
  then have "first_decisive (drop 5 (upper (sha1_hex ''password''))) [''AB:xyz''] = None"
    by (simp add: first_decisive_def bad_count_facts)
  then show ?thesis
    unfolding hibp_lookup_body [OF answering_urlopen] bad_count_lines scan_lines_decided
    by simp
qed

text \<open>
  A record that carries the suffix looked for and a count with more digits than the
  interpreter's limit: the line decides, and its count is refused.
\<close>

lemma upper_hex_plain_table:
  "list_all (\<lambda>c. c \<noteq> CHR '':'' \<and> \<not> is_linebreak c \<and> \<not> isspace c \<and> upper_char c = c)
     ''0123456789ABCDEF''"
  by code_simp

lemma upper_hex_plain:
  assumes "is_upper_hex c"
  shows "c \<noteq> CHR '':'' \<and> \<not> is_linebreak c \<and> \<not> isspace c \<and> upper_char c = c"
proof -
  have "\<forall>c\<in>set ''0123456789ABCDEF''.
      c \<noteq> CHR '':'' \<and> \<not> is_linebreak c \<and> \<not> isspace c \<and> upper_char c = c"
    using upper_hex_plain_table unfolding list_all_iff .
  then show ?thesis using assms unfolding is_upper_hex_def by (rule bspec)
qed

lemma upper_id: "list_all (\<lambda>c. upper_char c = c) s \<Longrightarrow> upper s = s"
  by (simp add: upper_def list_all_iff map_idI)

lemma decimal_plain: "is_decimal c \<Longrightarrow> c \<noteq> CHR '':'' \<and> \<not> is_linebreak c"
  by (auto simp: is_decimal_def is_linebreak_def cp_def)

lemma splitlines_from_plain:
  "list_all (\<lambda>c. \<not> is_linebreak c) s \<Longrightarrow> cur @ s \<noteq> [] \<Longrightarrow> splitlines_from cur s = [cur @ s]"
  by (induction s arbitrary: cur) simp_all

lemma splitlines_plain:
  "s \<noteq> [] \<Longrightarrow> list_all (\<lambda>c. \<not> is_linebreak c) s \<Longrightarrow> splitlines s = [s]"
  using splitlines_from_plain [of s "[]"] by (simp add: splitlines_def)

lemma record_shape:
  assumes "CHR '':'' \<notin> set a" "CHR '':'' \<notin> set b"
  shows "colon_count (a @ CHR '':'' # b) = 1"
    and "before_colon (a @ CHR '':'' # b) = a"
    and "after_colon (a @ CHR '':'' # b) = b"
proof -
  from assms have "filter (\<lambda>c. c = CHR '':'') a = []" "filter (\<lambda>c. c = CHR '':'') b = []"
    by (auto simp: filter_empty_conv)
  then show "colon_count (a @ CHR '':'' # b) = 1" by (simp add: colon_count_def)
  from assms(1) have a: "\<forall>c\<in>set a. c \<noteq> CHR '':''" by auto
  then show "before_colon (a @ CHR '':'' # b) = a"
    by (simp add: before_colon_def takeWhile_append2)
  from a show "after_colon (a @ CHR '':'' # b) = b"
    by (simp add: after_colon_def dropWhile_append2)
qed

lemma long_count_refused:
  assumes "list_all is_decimal s" "int_max_str_digits < length s"
  shows "py_int (strip s) = None"
proof -
  from assms(2) have ne: "s \<noteq> []" by auto
  with assms(1) have "is_decimal (hd s)" "is_decimal (last s)" by (simp_all add: list_all_iff)
  then have "\<not> isspace (hd s)" "\<not> isspace (last s)" by (simp_all add: decimal_not_space)
  with ne have st: "strip s = s" by (rule strip_id)
  from assms(1) have "filter is_decimal s = s" by (simp add: list_all_iff)
  with assms(2) st have "int_max_str_digits < length (filter is_decimal (strip (strip s)))" by simp
  then show ?thesis by (rule py_int_too_long)
qed

lemma long_count_line:
  assumes "list_all is_decimal cnt" "int_max_str_digits < length cnt"
  shows "splitlines (drop 5 (upper (sha1_hex pw)) @ CHR '':'' # cnt) =
           [drop 5 (upper (sha1_hex pw)) @ CHR '':'' # cnt]"
    and "first_decisive (drop 5 (upper (sha1_hex pw))) [drop 5 (upper (sha1_hex pw)) @ CHR '':'' # cnt] =
           Some (drop 5 (upper (sha1_hex pw)) @ CHR '':'' # cnt)"
    and "colon_count (drop 5 (upper (sha1_hex pw)) @ CHR '':'' # cnt) = 1"
    and "py_int (strip (after_colon (drop 5 (upper (sha1_hex pw)) @ CHR '':'' # cnt))) = None"
    and "\<not> record_line (drop 5 (upper (sha1_hex pw)) @ CHR '':'' # cnt)"
proof -
  let ?sfx = "drop 5 (upper (sha1_hex pw))"
  let ?line = "?sfx @ CHR '':'' # cnt"
  have hexs: "list_all is_upper_hex ?sfx"
    using digest_upper_hex [of pw] by (auto simp: list_all_iff dest: in_set_dropD)
  have len: "length ?sfx = 35" by (rule length_suffix)
  then have ne: "?sfx \<noteq> []" by auto
  from hexs have nc: "CHR '':'' \<notin> set ?sfx"
    using upper_hex_plain by (auto simp: list_all_iff)
  from assms(1) have ncc: "CHR '':'' \<notin> set cnt"
    using decimal_plain by (auto simp: list_all_iff)
  note shape = record_shape [OF nc ncc]
  have "list_all (\<lambda>c. \<not> is_linebreak c) ?sfx"
    using hexs upper_hex_plain by (auto simp: list_all_iff)
  moreover have "list_all (\<lambda>c. \<not> is_linebreak c) cnt"
    using assms(1) decimal_plain by (auto simp: list_all_iff)
  moreover have "\<not> is_linebreak CHR '':''" by code_simp
  ultimately have "list_all (\<lambda>c. \<not> is_linebreak c) ?line" by simp
  then show "splitlines ?line = [?line]" by (intro splitlines_plain) simp_all
  show cc: "colon_count ?line = 1" by (rule shape(1))
  have "hd ?sfx \<in> set ?sfx" using ne by (rule hd_in_set)
  moreover have "last ?sfx \<in> set ?sfx" using ne by (rule last_in_set)
  ultimately have "is_upper_hex (hd ?sfx)" "is_upper_hex (last ?sfx)"
    using hexs unfolding list_all_iff by blast+
  then have "\<not> isspace (hd ?sfx)" "\<not> isspace (last ?sfx)"
    using upper_hex_plain by blast+
  with ne have "strip ?sfx = ?sfx" by (rule strip_id)
  moreover have "list_all (\<lambda>c. upper_char c = c) ?sfx"
    using hexs upper_hex_plain by (auto simp: list_all_iff)
  then have "upper ?sfx = ?sfx" by (rule upper_id)
  ultimately have "upper (strip (before_colon ?line)) = ?sfx" by (simp add: shape(2))
  then show "first_decisive ?sfx [?line] = Some ?line" by (simp add: first_decisive_def)
  show "py_int (strip (after_colon ?line)) = None"
    unfolding shape(3) using assms by (rule long_count_refused)
  from assms(2) show "\<not> record_line ?line" by (simp add: record_line_def shape(3))
qed

lemma overlong_count: 
  "list_all is_decimal (replicate 4301 (CHR ''7''))"
  "int_max_str_digits < length (replicate 4301 (CHR ''7''))"
proof -
  have "is_decimal CHR ''7''" by code_simp
  then show "list_all is_decimal (replicate 4301 (CHR ''7''))" by (simp add: list_all_iff)
  show "int_max_str_digits < length (replicate 4301 (CHR ''7''))"
    by (simp add: int_max_str_digits_def)
qed

lemma overlong_body_line: "overlong_body = drop 5 (upper (sha1_hex ''password'')) @ CHR '':'' # replicate 4301 (CHR ''7'')"
  by (simp add: overlong_body_def)

section \<open>What the lookup sends\<close>

lemma requests_of_append: "requests_of (xs @ ys) = requests_of xs @ requests_of ys"
  by (simp add: requests_of_def)

lemma requests_of_load_paths: "requests_of (snd (load_paths rd ps)) = []"
  by (induction ps) (auto simp: requests_of_def split: prod.splits option.splits)

lemma requests_of_load: "requests_of (snd (load_breached_passwords w)) = []"
  unfolding load_breached_passwords_def by (rule requests_of_load_paths)

lemma requests_of_choices: "requests_of (map SecretsChoice ks) = []"
  by (induction ks) (simp_all add: requests_of_def)

lemma requests_of_finish: "requests_of (snd (finish w pw bo bn c t)) = []"
  by (simp add: finish_def generate_suggestions_def Let_def requests_of_choices)

lemma requests_of_lookup: "requests_of (snd (hibp_lookup w pw)) = [hibp_request pw]"
  by (simp add: hibp_lookup_def Let_def requests_of_def)

lemma requests_of_assess:
  "requests_of (snd (assess_password w pw include_hibp)) =
     (if include_hibp \<and> pw \<noteq> [] then [hibp_request pw] else [])"
proof (cases "pw = []")
  case True
  then show ?thesis by (simp add: assess_password_def requests_of_def)
next
  case False
  obtain s e1 where l: "load_breached_passwords w = (s, e1)" by (cases "load_breached_passwords w")
  then have e1: "requests_of e1 = []" using requests_of_load [of w] by simp
  obtain r e2 where k: "hibp_lookup w pw = (r, e2)" by (cases "hibp_lookup w pw")
  then have e2: "requests_of e2 = [hibp_request pw]" using requests_of_lookup [of w pw] by simp
  show ?thesis
  proof (cases include_hibp)
    case h: False
    obtain a e3 where f: "finish w pw (offline_breach_match pw s) None None
        (offline_check (offline_breach_match pw s) (heuristic_checks pw)) = (a, e3)"
      by (cases "finish w pw (offline_breach_match pw s) None None
        (offline_check (offline_breach_match pw s) (heuristic_checks pw))")
    then have "requests_of e3 = []"
      using requests_of_finish [of w pw "offline_breach_match pw s" None None
        "offline_check (offline_breach_match pw s) (heuristic_checks pw)"] by simp
    with False h l f e1 show ?thesis
      by (simp add: assess_password_def requests_of_append)
  next
    case h: True
    show ?thesis
    proof (cases r)
      case (Inl e)
      with False h l k e1 e2 show ?thesis
        by (simp add: assess_password_def requests_of_append)
    next
      case (Inr v)
      obtain a e3 where f: "finish w pw (offline_breach_match pw s) (Some (fst v)) (snd v)
        (online_check v (offline_check (offline_breach_match pw s) (heuristic_checks pw))) = (a, e3)"
        by (cases "finish w pw (offline_breach_match pw s) (Some (fst v)) (snd v)
        (online_check v (offline_check (offline_breach_match pw s) (heuristic_checks pw)))")
      then have "requests_of e3 = []"
        using requests_of_finish [of w pw "offline_breach_match pw s" "Some (fst v)" "snd v"
          "online_check v (offline_check (offline_breach_match pw s) (heuristic_checks pw))"]
        by simp
      with False h l k Inr f e1 e2 show ?thesis
        by (simp add: assess_password_def requests_of_append)
    qed
  qed
qed

lemma window_member:
  assumes "xs = ps @ ys @ ss" "length ps \<le> k" "k < length ps + length ys"
  shows "xs ! k \<in> set ys"
proof -
  from assms(2,3) have 1: "\<not> k < length ps" "k - length ps < length ys" by simp_all
  then have "xs ! k = ys ! (k - length ps)"
    unfolding assms(1) by (simp add: nth_append)
  with 1(2) show ?thesis by simp
qed

lemma not_upper_hex_i: "\<not> is_upper_hex CHR ''i''"
  by code_simp

lemma base_at_10: "(''https://api.pwnedpasswords.com/range/'' @ pfx) ! 10 = CHR ''i''"
  by (simp add: nth_append)

lemma suffix_not_in_url:
  assumes "length sfx = 35" "list_all is_upper_hex sfx" "length pfx = 5"
  shows "\<not> sublist sfx (''https://api.pwnedpasswords.com/range/'' @ pfx)"
proof
  let ?u = "''https://api.pwnedpasswords.com/range/'' @ pfx"
  assume "sublist sfx ?u"
  then obtain ps ss where u: "?u = ps @ sfx @ ss" by (auto simp: sublist_def)
  then have "length ?u = length (ps @ sfx @ ss)" by (rule arg_cong)
  with assms(1,3) have "length ps \<le> 7" by simp
  with u assms(1) have "?u ! 10 \<in> set sfx"
    by (intro window_member [of ?u ps sfx ss]) simp_all
  then have "CHR ''i'' \<in> set sfx" unfolding base_at_10 .
  with assms(2) have "is_upper_hex CHR ''i''" by (simp add: list_all_iff)
  with not_upper_hex_i show False by simp
qed

lemma too_long_for:
  "length ys < length xs \<Longrightarrow> \<not> sublist xs ys"
  by (auto dest: sublist_length_le)

text \<open>
  Two passwords whose digests begin with the same five characters. The padded block is
  computed first, then the eighty rounds and the first digits of the digest.
\<close>

lemma pad_pw2001: "be_words (sha1_pad (encode_utf8 ''pw2001'')) = [1886859824, 808550400, 0, 0, 0, 0, 0, 0, 0, 0, 0, 0, 0, 0, 0, 48]"
  by code_simp

lemma fold_upt_step:
  "fold f [i..<j] s = (if i < j then fold f [i + 1..<j] (f i s) else s)"
  by (simp add: upt_rec [of i j])

lemma digits_8: "[0..<8] = [0,1,2,3,4,5,6,7]"
  by code_simp

lemma upper_hex_chars:
  "upper_char CHR ''0'' = CHR ''0''" "upper_char CHR ''1'' = CHR ''1''" "upper_char CHR ''2'' = CHR ''2''" "upper_char CHR ''3'' = CHR ''3''" "upper_char CHR ''4'' = CHR ''4''" "upper_char CHR ''5'' = CHR ''5''" "upper_char CHR ''6'' = CHR ''6''" "upper_char CHR ''7'' = CHR ''7''" "upper_char CHR ''8'' = CHR ''8''" "upper_char CHR ''9'' = CHR ''9''" "upper_char CHR ''a'' = CHR ''A''" "upper_char CHR ''b'' = CHR ''B''" "upper_char CHR ''c'' = CHR ''C''" "upper_char CHR ''d'' = CHR ''D''" "upper_char CHR ''e'' = CHR ''E''" "upper_char CHR ''f'' = CHR ''F''"
  by code_simp+

lemma prefix_pw2001: "take 5 (upper (sha1_hex ''pw2001'')) = ''DC0A5''"
  unfolding sha1_hex_def sha1_def pad_pw2001
  by (simp add: fold_upt_step digits_8 sha1_init_def rotl_def sha1_f_def sha1_k_def Let_def hexdigest_def hex_word_def
      hex_digit_def upper_def upper_hex_chars)

lemma pad_pw2501: "be_words (sha1_pad (encode_utf8 ''pw2501'')) = [1886859829, 808550400, 0, 0, 0, 0, 0, 0, 0, 0, 0, 0, 0, 0, 0, 48]"
  by code_simp

lemma prefix_pw2501: "take 5 (upper (sha1_hex ''pw2501'')) = ''DC0A5''"
  unfolding sha1_hex_def sha1_def pad_pw2501
  by (simp add: fold_upt_step digits_8 sha1_init_def rotl_def sha1_f_def sha1_k_def Let_def hexdigest_def hex_word_def
      hex_digit_def upper_def upper_hex_chars)

lemma hibp_request_prefix: "hibp_request pw = range_request (take 5 (upper (sha1_hex pw)))"
  by (simp add: hibp_request_def Let_def)

section \<open>Two worlds with the same inputs\<close>

lemma comment_world_corpus: "fst (load_breached_passwords comment_world) = {}"
  by code_simp

lemma lookup_quiet: "fst (hibp_lookup quiet_world pw) = Inr (False, None)"
  by (simp add: hibp_lookup_def Let_def quiet_world_def)

lemma lookup_comment: "fst (hibp_lookup comment_world pw) = Inr (False, None)"
  by (simp add: hibp_lookup_def Let_def comment_world_def)

lemma finish_suggestions:
  "suggestions (fst (finish w pw bo bn c t)) = fst (generate_suggestions (draws w) pw 3)"
  by (simp add: finish_def Let_def split: prod.split)

lemma draws_differ:
  "fst (generate_suggestions (draws quiet_world) ''aaa'' 3) \<noteq>
   fst (generate_suggestions (draws comment_world) ''aaa'' 3)"
  by code_simp

lemma suggestions_differ:
  "map_sum id suggestions (fst (assess_password quiet_world ''aaa'' True)) \<noteq>
   map_sum id suggestions (fst (assess_password comment_world ''aaa'' True))"
  using draws_differ by (simp add: assess_online lookup_quiet lookup_comment finish_suggestions)

section \<open>The exponent and the spacing of the floats\<close>

lemma pow2_mono: "j \<le> k \<Longrightarrow> pow2 j \<le> pow2 k"
proof -
  assume jk: "j \<le> k"
  have p: "pow2 i = 2 powi i" for i
    by (cases "0 \<le> i") (simp_all add: pow2_def power_int_def field_simps)
  show ?thesis unfolding p using jk by (intro power_int_increasing) simp_all
qed

lemma pow2_add: "pow2 (j + k) = pow2 j * pow2 k"
proof -
  have p: "pow2 i = 2 powi i" for i
    by (cases "0 \<le> i") (simp_all add: pow2_def power_int_def field_simps)
  show ?thesis unfolding p by (simp add: power_int_add)
qed

lemma ilog2_bracket:
  assumes "0 < x"
  shows "pow2 (ilog2 x) \<le> x \<and> x < pow2 (ilog2 x + 1)"
proof (cases "1 \<le> x")
  case True
  define n where "n = nat \<lfloor>x\<rfloor>"
  define fl where "fl = floorlog 2 n"
  from True have n: "0 < n" "of_nat n \<le> x" "x < of_nat n + 1"
    unfolding n_def by (simp_all add: le_floor_iff) linarith+
  from floorlog_bounds [where b = 2 and x = n] n(1) have b: "2 ^ (fl - 1) \<le> n" "n < 2 ^ fl"
    unfolding fl_def by simp_all
  have "fl \<noteq> 0" unfolding fl_def floorlog_eq_zero_iff using n(1) by simp
  then have fl: "0 < fl" by simp
  have e: "ilog2 x = int fl - 1" using True by (simp add: ilog2_def n_def fl_def)
  from b(1) have "(2::rat) ^ (fl - 1) \<le> of_nat n"
    by (metis of_nat_le_iff of_nat_numeral of_nat_power)
  then have lo: "(2::rat) ^ (fl - 1) \<le> x" using n(2) by (rule order_trans)
  from b(2) have "n + 1 \<le> 2 ^ fl" by simp
  then have "(of_nat (n + 1) :: rat) \<le> 2 ^ fl"
    by (metis of_nat_le_iff of_nat_numeral of_nat_power)
  with n(3) have hi: "x < 2 ^ fl" by (auto simp only: of_nat_add of_nat_1 intro: less_le_trans)
  from fl have "nat (int fl - 1) = fl - 1" by simp
  with lo hi fl show ?thesis unfolding e by (simp add: pow2_def)
next
  case False
  with assms have x: "0 < x" "x < 1" by simp_all
  define y where "y = 1 / x"
  from x have y: "1 < y" unfolding y_def by simp
  define m where "m = nat (\<lceil>y\<rceil> - 1)"
  define fl where "fl = floorlog 2 m"
  from y have c: "2 \<le> \<lceil>y\<rceil>" by (simp add: le_ceiling_iff)
  then have m: "0 < m" "of_nat m < y" "y \<le> of_nat m + 1"
    unfolding m_def by (simp_all add: of_nat_nat) linarith+
  from floorlog_bounds [where b = 2 and x = m] m(1) have b: "2 ^ (fl - 1) \<le> m" "m < 2 ^ fl"
    unfolding fl_def by simp_all
  have "fl \<noteq> 0" unfolding fl_def floorlog_eq_zero_iff using m(1) by simp
  then have fl: "0 < fl" by simp
  have e: "ilog2 x = - int fl" using False by (simp add: ilog2_def m_def fl_def y_def)
  from b(1) have "(2::rat) ^ (fl - 1) \<le> of_nat m"
    by (metis of_nat_le_iff of_nat_numeral of_nat_power)
  then have "(2::rat) ^ (fl - 1) < y" using m(2) by (rule le_less_trans)
  then have hi: "x < 1 / 2 ^ (fl - 1)"
    unfolding y_def using x(1) by (simp add: field_simps)
  from b(2) have "m + 1 \<le> 2 ^ fl" by simp
  then have "(of_nat (m + 1) :: rat) \<le> 2 ^ fl"
    by (metis of_nat_le_iff of_nat_numeral of_nat_power)
  with m(3) have "y \<le> 2 ^ fl" by (auto simp only: of_nat_add of_nat_1 intro: order_trans)
  then have lo: "1 / 2 ^ fl \<le> x"
    unfolding y_def using x(1) by (simp add: field_simps)
  have "nat (int fl - 1) = fl - 1" using fl by simp
  then have "pow2 (- int fl + 1) = 1 / 2 ^ (fl - 1)"
    using fl by (cases "fl = 1") (simp_all add: pow2_def)
  with lo hi fl show ?thesis unfolding e by (simp add: pow2_def)
qed

lemma round_half_even_lower: "of_int a \<le> q \<Longrightarrow> a \<le> round_half_even q"
proof -
  assume "of_int a \<le> q"
  then have "a \<le> \<lfloor>q\<rfloor>" by (simp add: le_floor_iff)
  then show ?thesis by (auto simp: round_half_even_def Let_def)
qed

lemma round_half_even_upper: "q \<le> of_int b \<Longrightarrow> round_half_even q \<le> b"
proof -
  assume q: "q \<le> of_int b"
  then have f: "\<lfloor>q\<rfloor> \<le> b" by (auto simp: floor_le_iff)
  show ?thesis
  proof (cases "\<lfloor>q\<rfloor> = b")
    case True
    with q have "q - of_int \<lfloor>q\<rfloor> \<le> 0" by simp
    then have "q - of_int \<lfloor>q\<rfloor> < 1 / 2" by simp
    with True show ?thesis by (simp add: round_half_even_def Let_def)
  next
    case False
    with f have "\<lfloor>q\<rfloor> + 1 \<le> b" by simp
    then show ?thesis by (auto simp: round_half_even_def Let_def)
  qed
qed

lemma fround_nonpos: "x \<le> 0 \<Longrightarrow> fround x \<le> 0"
proof (cases "x = 0")
  case True
  then show ?thesis by (simp add: fround_def)
next
  case False
  assume "x \<le> 0"
  with False have neg: "x < 0" by simp
  let ?u = "pow2 (ilog2 \<bar>x\<bar> - 52)"
  have u: "0 < ?u" by (rule pow2_pos)
  then have "0 \<le> \<bar>x\<bar> / ?u" by simp
  then have "0 \<le> round_half_even (\<bar>x\<bar> / ?u)" by (rule round_half_even_nonneg)
  then have "0 \<le> (of_int (round_half_even (\<bar>x\<bar> / ?u)) :: rat) * ?u"
    using u by simp
  with neg show ?thesis by (simp add: fround_def Let_def)
qed

lemma fround_pos_form:
  assumes "0 < x"
  obtains n e where "fround x = of_int n * pow2 (e - 52)" "2 ^ 52 \<le> n" "n \<le> 2 ^ 53"
proof -
  define e where "e = ilog2 x"
  define u where "u = pow2 (e - 52)"
  define n where "n = round_half_even (x / u)"
  have u: "0 < u" unfolding u_def by (rule pow2_pos)
  from ilog2_bracket [OF assms] have b: "pow2 e \<le> x" "x < pow2 (e + 1)"
    unfolding e_def by simp_all
  have "pow2 e = pow2 (e - 52 + 52)" by simp
  also have "\<dots> = u * pow2 52" unfolding u_def by (rule pow2_add)
  finally have pe: "pow2 e = u * 2 ^ 52" by (simp add: pow2_def)
  have "e + 1 = e - 52 + 53" by simp
  then have "pow2 (e + 1) = pow2 (e - 52 + 53)" by (rule arg_cong)
  also have "\<dots> = u * pow2 53" unfolding u_def by (rule pow2_add)
  finally have pe1: "pow2 (e + 1) = u * 2 ^ 53" by (simp add: pow2_def)
  from b(1) u have "2 ^ 52 \<le> x / u" unfolding pe by (simp add: field_simps)
  then have "of_int (2 ^ 52) \<le> x / u" by simp
  then have lo: "2 ^ 52 \<le> n" unfolding n_def by (rule round_half_even_lower)
  from b(2) u have "x / u \<le> 2 ^ 53" unfolding pe1 by (simp add: field_simps)
  then have "x / u \<le> of_int (2 ^ 53)" by simp
  then have hi: "n \<le> 2 ^ 53" unfolding n_def by (rule round_half_even_upper)
  from assms have "fround x = of_int n * pow2 (e - 52)"
    by (simp add: fround_def Let_def n_def u_def e_def)
  then show ?thesis using lo hi by (rule that)
qed

lemma lit_45: "lit (45 / 100) = 8106479329266893 / 18014398509481984"
  by code_simp

lemma no_double_below_lit_45:
  "\<not> (45 / 100 \<le> fround x \<and> fround x < 8106479329266893 / 18014398509481984)"
proof
  assume a: "45 / 100 \<le> fround x \<and> fround x < 8106479329266893 / 18014398509481984"
  then have "\<not> fround x \<le> 0" by simp
  then have "0 < x" using fround_nonpos [of x] by (cases "0 < x") simp_all
  then obtain n e where f: "fround x = of_int n * pow2 (e - 52)" and n: "2 ^ 52 \<le> n" "n \<le> 2 ^ 53"
    by (rule fround_pos_form)
  have u: "0 < pow2 (e - 52)" by (rule pow2_pos)
  have "pow2 e = pow2 (e - 52 + 52)" by simp
  also have "\<dots> = pow2 (e - 52) * pow2 52" by (rule pow2_add)
  finally have pe: "pow2 e = pow2 (e - 52) * 2 ^ 52" by (simp add: pow2_def)
  have "e + 1 = e - 52 + 53" by simp
  then have "pow2 (e + 1) = pow2 (e - 52 + 53)" by (rule arg_cong)
  also have "\<dots> = pow2 (e - 52) * pow2 53" by (rule pow2_add)
  finally have pe1: "pow2 (e + 1) = pow2 (e - 52) * 2 ^ 53" by (simp add: pow2_def)
  from n(1) have "(2::rat) ^ 52 \<le> of_int n" by (metis of_int_le_iff of_int_numeral of_int_power)
  with u have lo: "pow2 e \<le> fround x" unfolding pe f by (simp add: mult.commute)
  from n(2) have "of_int n \<le> (2::rat) ^ 53" by (metis of_int_le_iff of_int_numeral of_int_power)
  with u have hi: "fround x \<le> pow2 (e + 1)" unfolding pe1 f by (simp add: mult.commute)
  have e: "e = - 2"
  proof (rule ccontr)
    assume "e \<noteq> - 2"
    then consider "- 1 \<le> e" | "e + 1 \<le> - 2" by linarith
    then show False
    proof cases
      case 1
      then have "pow2 (- 1) \<le> pow2 e" by (rule pow2_mono)
      with lo a show False by (simp add: pow2_def)
    next
      case 2
      then have "pow2 (e + 1) \<le> pow2 (- 2)" by (rule pow2_mono)
      with hi a show False by (simp add: pow2_def)
    qed
  qed
  have v: "fround x = of_int n / 18014398509481984"
    unfolding f e by (simp add: pow2_def)
  from a have "(of_int n :: rat) < 8106479329266893" unfolding v by simp
  then have 1: "n < 8106479329266893" by (simp only: of_int_less_numeral_iff)
  from a have "(45 :: rat) * 18014398509481984 \<le> of_int n * 100" unfolding v by simp
  then have "(of_int (810647932926689280) :: rat) \<le> of_int (n * 100)" by simp
  then have "810647932926689280 \<le> n * 100" by (simp only: of_int_le_iff)
  with 1 show False by simp
qed

lemma zero_double: "(0::rat) \<in> range fround"
  by (rule range_eqI [of _ _ 0]) (simp add: fround_def)

lemma add_reason_double: "fst (add_reason x r t) \<in> range fround"
  by (simp add: add_reason_def fadd_def)

lemma heuristic_checks_double: "fst (heuristic_checks pw) \<in> range fround"
  unfolding heuristic_checks_def Let_def
  by (intro add_reason_double zero_double | simp add: reason_only_fst split del: if_split | rule if_split [THEN iffD2, OF conjI, OF impI impI])+

lemma offline_check_double: "fst t \<in> range fround \<Longrightarrow> fst (offline_check b t) \<in> range fround"
  by (simp add: offline_check_def add_reason_double)

lemma online_check_double: "fst t \<in> range fround \<Longrightarrow> fst (online_check r t) \<in> range fround"
  by (cases r) (simp add: online_check_def add_reason_double reason_only_fst)

lemma assess_Inr_double:
  assumes "fst (assess_password w pw h) = Inr a"
  obtains x where "risk_score a = min (fround x) 1"
proof -
  from assms have ne: "pw \<noteq> []" by (auto simp: assess_password_def)
  let ?t = "offline_check (offline_breach_match pw (fst (load_breached_passwords w)))
    (heuristic_checks pw)"
  have t: "fst ?t \<in> range fround"
    by (intro offline_check_double heuristic_checks_double)
  show ?thesis
  proof (cases h)
    case False
    with assms ne have "risk_score a = min (fst ?t) 1"
      by (auto simp: assess_offline finish_fields)
    with t show ?thesis by (auto intro: that)
  next
    case True
    with assms ne obtain r where "risk_score a = min (fst (online_check r ?t)) 1"
      by (auto simp: assess_online finish_fields split: sum.splits)
    moreover have "fst (online_check r ?t) \<in> range fround"
      using t by (rule online_check_double)
    ultimately show ?thesis by (auto intro: that)
  qed
qed

lemma below_045:
  "min (fround x) 1 < lit (45 / 100) \<longleftrightarrow> min (fround x) 1 < 45 / 100"
proof
  assume "min (fround x) 1 < 45 / 100"
  then show "min (fround x) 1 < lit (45 / 100)" unfolding lit_45 by simp
next
  assume l: "min (fround x) 1 < lit (45 / 100)"
  then have m: "min (fround x) 1 = fround x" unfolding lit_45 by (simp add: min_def split: if_splits)
  show "min (fround x) 1 < 45 / 100"
  proof (rule ccontr)
    assume "\<not> min (fround x) 1 < 45 / 100"
    with l have "45 / 100 \<le> fround x \<and> fround x < 8106479329266893 / 18014398509481984"
      unfolding m lit_45 by simp
    with no_double_below_lit_45 show False by blast
  qed
qed

section \<open>The claims\<close>

text \<open>
  Claim C2. For every password that is not empty, whatever the files hold and whatever
  the network does, the \<open>risk_score\<close> of the assessment that \<open>assess_password\<close>
  returns lies between 0 and 1. The run returns an assessment unless the online lookup
  was requested and raised; without the lookup it always returns one.
\<close>

theorem risk_score_bounds:
  "(case fst (assess_password w pw include_hibp) of
      Inr a \<Rightarrow> 0 \<le> risk_score a \<and> risk_score a \<le> 1
    | Inl e \<Rightarrow> pw = [] \<or> (include_hibp \<and> fst (hibp_lookup w pw) = Inl e))"
proof (cases "fst (assess_password w pw include_hibp)")
  case (Inr a)
  then obtain bo bn c t where "a = fst (finish w pw bo bn c t)" "0 \<le> fst t"
    by (rule assess_Inr_cases)
  with Inr show ?thesis by (simp add: finish_fields)
next
  case (Inl e)
  show ?thesis
  proof (cases "pw = []")
    case True
    with Inl show ?thesis by simp
  next
    case False
    with Inl assess_offline [of pw w] assess_online [of pw w] show ?thesis
      by (cases include_hibp) (auto split: sum.splits)
  qed
qed

text \<open>
  Claim C4. On the empty string \<open>assess_password\<close> raises the \<^verbatim>\<open>ValueError\<close> at
  once: there is no assessment, and the list of events is empty, so no file was looked
  at, no request was sent and no random number was drawn.
\<close>

theorem empty_password_rejected:
  "assess_password w [] include_hibp = (Inl (ValueError ''Password must be provided''), [])"
  by (simp add: assess_password_def)

text \<open>
  Claim C5 names three failures of the network call: URL, HTTP and timeout errors. The
  \<^verbatim>\<open>except\<close> clause of \<open>_hibp_lookup\<close> names \<^verbatim>\<open>URLError\<close> and \<^verbatim>\<open>HTTPError\<close>. A failure that
  arrives as one of the two, a timeout of the connection among them, gives the
  assessment the claim describes: \<open>breached_online = False\<close>, \<open>hibp_count = None\<close>, the
  reason \<^verbatim>\<open>Have I Been Pwned lookup unavailable\<close> and no increment of the score. A
  timeout of the response, after the connection was made, is a \<^verbatim>\<open>TimeoutError\<close>: the
  clause does not catch it, it leaves the lookup and \<open>assess_password\<close>, and no
  assessment is returned. The theorem runs \<^verbatim>\<open>aaa\<close> in the world whose responses time
  out, states the same for every world and every password that is not empty, and runs
  \<^verbatim>\<open>aaa\<close> in the world whose requests fail with a \<^verbatim>\<open>URLError\<close> for comparison.
\<close>

theorem response_timeout_propagates:
  "fst (assess_password stalled_world ''aaa'' True) = Inl (Propagated TimeoutError)
   \<and> fst (assess_password (w\<lparr>urlopen := (\<lambda>r. Raises TimeoutError)\<rparr>) (c # cs) True) =
       Inl (Propagated TimeoutError)
   \<and> map_sum id (\<lambda>a. (breached_online a, hibp_count a, last (reasons a)))
         (fst (assess_password quiet_world ''aaa'' True)) =
       Inr (Some False, None, ''Have I Been Pwned lookup unavailable'')"
proof -
  have 1: "fst (assess_password stalled_world ''aaa'' True) = Inl (Propagated TimeoutError)"
    unfolding stalled_world_def by (rule timeout_is_fatal)
  have "urlopen quiet_world (hibp_request ''aaa'') = Raises URLError"
    by (simp add: quiet_world_def)
  then have 3: "map_sum id (\<lambda>a. (breached_online a, hibp_count a, last (reasons a)))
         (fst (assess_password quiet_world ''aaa'' True)) =
       Inr (Some False, None, ''Have I Been Pwned lookup unavailable'')"
    using caught_failure_is_not_fatal [of "''aaa''" quiet_world URLError] by auto
  from 1 3 show ?thesis by (simp add: timeout_is_fatal)
qed

text \<open>
  Claim C8. For the password \<^verbatim>\<open>aaa\<close> the too-short check (+0.4) and the repetition
  check (+0.15) both fire (so does the variety check, +0.2), both reasons are among
  the reasons of every assessment, the score is at least the float 0.45, and the label
  is \<^verbatim>\<open>medium\<close> or \<^verbatim>\<open>high\<close>. This holds for every world and with or without
  the lookup; the run fails only when the lookup raises.
\<close>

theorem aaa_scenario:
  "(case fst (assess_password w ''aaa'' include_hibp) of
      Inr a \<Rightarrow>
        ''Too short (under 8 characters)'' \<in> set (reasons a) \<and>
        ''Contains repeated characters or low entropy'' \<in> set (reasons a) \<and>
        lit (45 / 100) \<le> risk_score a \<and>
        (label a = ''medium'' \<or> label a = ''high'')
    | Inl e \<Rightarrow> include_hibp \<and> fst (hibp_lookup w ''aaa'') = Inl e)
   \<and> heuristic_checks ''aaa'' =
       add_reason (lit (15 / 100)) ''Contains repeated characters or low entropy''
         (add_reason (lit (2 / 10)) ''Limited character variety''
           (add_reason (lit (4 / 10)) ''Too short (under 8 characters)'' (0, [])))"
proof (intro conjI)
  show "case fst (assess_password w ''aaa'' include_hibp) of
      Inr a \<Rightarrow>
        ''Too short (under 8 characters)'' \<in> set (reasons a) \<and>
        ''Contains repeated characters or low entropy'' \<in> set (reasons a) \<and>
        lit (45 / 100) \<le> risk_score a \<and>
        (label a = ''medium'' \<or> label a = ''high'')
    | Inl e \<Rightarrow> include_hibp \<and> fst (hibp_lookup w ''aaa'') = Inl e"
  proof (cases "fst (assess_password w ''aaa'' include_hibp)")
    case (Inl e)
    then show ?thesis using assess_Inl_cases [of w "''aaa''" include_hibp e] by simp
  next
    case (Inr a)
    then obtain t where t:
      "reasons a = snd t" "risk_score a = min (fst t) 1"
      "label a = format_risk_label (min (fst t) 1)"
      "prefix (snd (heuristic_checks ''aaa'')) (snd t)"
      "fst t =
       (let s = fst (heuristic_checks ''aaa'');
            s = (if breached_offline a then fadd s (lit (3 / 10)) else s);
            s = (if breached_online a = Some True then fadd s (lit (35 / 100)) else s)
        in s)"
      by (rule assess_Inr_shape)
    have hi: "lit (75 / 100) \<le> fst t"
      unfolding t(5) Let_def using aaa_scores by (simp only: simp_thms split: if_split)
    then have s: "lit (75 / 100) \<le> risk_score a"
      unfolding t(2) using one_above(1) by (simp only: min_def simp_thms split: if_split)
    have "set (snd (heuristic_checks ''aaa'')) \<subseteq> set (reasons a)"
      unfolding t(1) using t(4) by (rule set_mono_prefix)
    then have r: "''Too short (under 8 characters)'' \<in> set (reasons a)"
      "''Contains repeated characters or low entropy'' \<in> set (reasons a)"
      unfolding aaa_reasons by simp_all
    have l: "label a = ''high''"
      unfolding t(3) t(2) [symmetric] format_risk_label_def using s by (simp only: if_True)
    from s one_above(2) have "lit (45 / 100) \<le> risk_score a" by (rule order_trans [rotated])
    with r l Inr show ?thesis by (simp only: sum.case simp_thms)
  qed
qed (rule aaa_heuristics)

text \<open>
  Claim C7, as the spec states it, fails: \<^verbatim>\<open>P@ssw0rd123\<close> has 11 characters, so the
  length check gives \<^verbatim>\<open>Shorter than recommended (12+ characters)\<close> and adds 0.2; the
  reason \<^verbatim>\<open>Length meets recommended minimum\<close> is not produced. The run below is the
  one in the world without files and without the lookup.
\<close>

theorem p11_length_reason_counterexample:
  "map_sum id reasons (fst (assess_password quiet_world ''P@ssw0rd123'' False)) =
     Inr [''Shorter than recommended (12+ characters)'', ''Uses multiple character categories'',
          ''Contains sequential or keyboard patterns'',
          ''Uses predictable substitutions of common words'']
   \<and> ''Length meets recommended minimum'' \<notin>
       set [''Shorter than recommended (12+ characters)'', ''Uses multiple character categories'',
          ''Contains sequential or keyboard patterns'',
          ''Uses predictable substitutions of common words'']
   \<and> length ''P@ssw0rd123'' = 11"
  by (simp add: assess_offline quiet_world_corpus no_match_in_empty_corpus finish_fields
      offline_check_def p11_tally)

text \<open>
  Claim C7, amended. For \<^verbatim>\<open>P@ssw0rd123\<close> (11 characters) the reasons of every
  assessment begin with \<^verbatim>\<open>Shorter than recommended (12+ characters)\<close>,
  \<^verbatim>\<open>Uses multiple character categories\<close>,
  \<^verbatim>\<open>Contains sequential or keyboard patterns\<close> and
  \<^verbatim>\<open>Uses predictable substitutions of common words\<close>, and never hold
  \<^verbatim>\<open>Length meets recommended minimum\<close>. The score is the float sum of the increments
  that fired, clamped at 1: 0.2 + 0.15 + 0.15, which is exactly 1/2, then + 0.3 when the
  corpus matched and + 0.35 when the lookup found the password.
\<close>

theorem p11_scenario:
  "(case fst (assess_password w ''P@ssw0rd123'' include_hibp) of
      Inr a \<Rightarrow>
        prefix [''Shorter than recommended (12+ characters)'',
                ''Uses multiple character categories'',
                ''Contains sequential or keyboard patterns'',
                ''Uses predictable substitutions of common words''] (reasons a) \<and>
        ''Length meets recommended minimum'' \<notin> set (reasons a) \<and>
        risk_score a =
          min (let s = 1 / 2;
                   s = (if breached_offline a then fadd s (lit (3 / 10)) else s);
                   s = (if breached_online a = Some True then fadd s (lit (35 / 100)) else s)
               in s) 1
    | Inl e \<Rightarrow> include_hibp \<and> fst (hibp_lookup w ''P@ssw0rd123'') = Inl e)
   \<and> fadd (fadd (fadd 0 (lit (2 / 10))) (lit (15 / 100))) (lit (15 / 100)) = 1 / 2
   \<and> length ''P@ssw0rd123'' = 11"
proof (intro conjI)
  show "case fst (assess_password w ''P@ssw0rd123'' include_hibp) of
      Inr a \<Rightarrow>
        prefix [''Shorter than recommended (12+ characters)'',
                ''Uses multiple character categories'',
                ''Contains sequential or keyboard patterns'',
                ''Uses predictable substitutions of common words''] (reasons a) \<and>
        ''Length meets recommended minimum'' \<notin> set (reasons a) \<and>
        risk_score a =
          min (let s = 1 / 2;
                   s = (if breached_offline a then fadd s (lit (3 / 10)) else s);
                   s = (if breached_online a = Some True then fadd s (lit (35 / 100)) else s)
               in s) 1
    | Inl e \<Rightarrow> include_hibp \<and> fst (hibp_lookup w ''P@ssw0rd123'') = Inl e"
  proof (cases "fst (assess_password w ''P@ssw0rd123'' include_hibp)")
    case (Inl e)
    then show ?thesis using assess_Inl_cases [of w "''P@ssw0rd123''" include_hibp e] by simp
  next
    case (Inr a)
    then obtain t where t:
      "reasons a = snd t" "risk_score a = min (fst t) 1"
      "label a = format_risk_label (min (fst t) 1)"
      "prefix (snd (heuristic_checks ''P@ssw0rd123'')) (snd t)"
      "fst t =
       (let s = fst (heuristic_checks ''P@ssw0rd123'');
            s = (if breached_offline a then fadd s (lit (3 / 10)) else s);
            s = (if breached_online a = Some True then fadd s (lit (35 / 100)) else s)
        in s)"
      by (rule assess_Inr_shape)
    from Inr obtain extra where e:
      "reasons a = snd (heuristic_checks ''P@ssw0rd123'') @ extra"
      "set extra \<subseteq> {''Matches an offline breached password pattern'',
       ''Found in Have I Been Pwned password corpus'',
       ''Not found in Have I Been Pwned password corpus'',
       ''Have I Been Pwned lookup unavailable''}"
      by (rule assess_Inr_reasons)
    have 1: "prefix [''Shorter than recommended (12+ characters)'',
                ''Uses multiple character categories'',
                ''Contains sequential or keyboard patterns'',
                ''Uses predictable substitutions of common words''] (reasons a)"
      unfolding e(1) p11_tally(2) by (rule prefixI) (rule refl)
    have 2: "''Length meets recommended minimum'' \<notin> set (reasons a)"
    proof
      assume "''Length meets recommended minimum'' \<in> set (reasons a)"
      then have "''Length meets recommended minimum'' \<in> set (snd (heuristic_checks ''P@ssw0rd123''))
          \<or> ''Length meets recommended minimum'' \<in> set extra"
        unfolding e(1) by simp
      then show False
      proof
        assume "''Length meets recommended minimum'' \<in> set (snd (heuristic_checks ''P@ssw0rd123''))"
        then show False unfolding p11_tally(2) by simp
      next
        assume "''Length meets recommended minimum'' \<in> set extra"
        with e(2) have "''Length meets recommended minimum'' \<in>
          {''Matches an offline breached password pattern'',
           ''Found in Have I Been Pwned password corpus'',
           ''Not found in Have I Been Pwned password corpus'',
           ''Have I Been Pwned lookup unavailable''}" by (rule subsetD)
        then show False by simp
      qed
    qed
    have 3: "risk_score a =
          min (let s = 1 / 2;
                   s = (if breached_offline a then fadd s (lit (3 / 10)) else s);
                   s = (if breached_online a = Some True then fadd s (lit (35 / 100)) else s)
               in s) 1"
      unfolding t(2) t(5) p11_tally(1) by (rule refl)
    from 1 2 3 Inr show ?thesis by (simp only: sum.case simp_thms)
  qed
next
  show "length ''P@ssw0rd123'' = 11" by simp
qed (rule p11_sum)

text \<open>
  Claim C6. The offline matcher says yes exactly when the trimmed, lower-cased password
  is an entry of the corpus, or an entry that is not empty is a substring of the
  trimmed, lower-cased password. For a corpus that \<open>load_breached_passwords\<close> built
  (its entries carry no white space at their ends) this is the same as being a
  substring of the lower-cased password. In every assessment \<open>breached_offline\<close> is
  the matcher's answer; when it is true, the reason
  \<^verbatim>\<open>Matches an offline breached password pattern\<close> follows the reasons of the five
  checks and the float 0.3 is added to their score, before the lookup's part and before
  the clamp; when it is false, neither happens.
\<close>

theorem offline_match:
  "(offline_breach_match pw S \<longleftrightarrow>
      lower (strip pw) \<in> S \<or> (\<exists>entry\<in>S. entry \<noteq> [] \<and> sublist entry (lower (strip pw))))
   \<and> (offline_breach_match pw (fst (load_breached_passwords w)) \<longleftrightarrow>
      lower (strip pw) \<in> fst (load_breached_passwords w) \<or>
      (\<exists>entry\<in>fst (load_breached_passwords w). entry \<noteq> [] \<and> sublist entry (lower pw)))
   \<and> (case fst (assess_password w pw include_hibp) of
        Inl e \<Rightarrow> pw = [] \<or> (include_hibp \<and> fst (hibp_lookup w pw) = Inl e)
      | Inr a \<Rightarrow>
          breached_offline a = offline_breach_match pw (fst (load_breached_passwords w)) \<and>
          (\<exists>extra.
             reasons a =
               snd (heuristic_checks pw)
                 @ (if breached_offline a
                    then [''Matches an offline breached password pattern''] else [])
                 @ extra \<and>
             set extra \<subseteq> {''Found in Have I Been Pwned password corpus'',
               ''Not found in Have I Been Pwned password corpus'',
               ''Have I Been Pwned lookup unavailable''}) \<and>
          risk_score a =
            min (let s = fst (heuristic_checks pw);
                     s = (if breached_offline a then fadd s (lit (3 / 10)) else s);
                     s = (if breached_online a = Some True then fadd s (lit (35 / 100)) else s)
                 in s) 1)"
proof (intro conjI)
  show "case fst (assess_password w pw include_hibp) of
        Inl e \<Rightarrow> pw = [] \<or> (include_hibp \<and> fst (hibp_lookup w pw) = Inl e)
      | Inr a \<Rightarrow>
          breached_offline a = offline_breach_match pw (fst (load_breached_passwords w)) \<and>
          (\<exists>extra.
             reasons a =
               snd (heuristic_checks pw)
                 @ (if breached_offline a
                    then [''Matches an offline breached password pattern''] else [])
                 @ extra \<and>
             set extra \<subseteq> {''Found in Have I Been Pwned password corpus'',
               ''Not found in Have I Been Pwned password corpus'',
               ''Have I Been Pwned lookup unavailable''}) \<and>
          risk_score a =
            min (let s = fst (heuristic_checks pw);
                     s = (if breached_offline a then fadd s (lit (3 / 10)) else s);
                     s = (if breached_online a = Some True then fadd s (lit (35 / 100)) else s)
                 in s) 1"
  proof (cases "fst (assess_password w pw include_hibp)")
    case (Inl e)
    then show ?thesis using assess_Inl_cases [of w pw include_hibp e] by auto
  next
    case (Inr a)
    then obtain t where t:
      "reasons a = snd t" "risk_score a = min (fst t) 1"
      "label a = format_risk_label (min (fst t) 1)"
      "prefix (snd (heuristic_checks pw)) (snd t)"
      "fst t =
       (let s = fst (heuristic_checks pw);
            s = (if breached_offline a then fadd s (lit (3 / 10)) else s);
            s = (if breached_online a = Some True then fadd s (lit (35 / 100)) else s)
        in s)"
      by (rule assess_Inr_shape)
    from Inr obtain extra where e:
      "breached_offline a = offline_breach_match pw (fst (load_breached_passwords w))"
      "reasons a =
         snd (heuristic_checks pw)
           @ (if breached_offline a then [''Matches an offline breached password pattern''] else [])
           @ extra"
      "set extra \<subseteq> {''Found in Have I Been Pwned password corpus'',
         ''Not found in Have I Been Pwned password corpus'',
         ''Have I Been Pwned lookup unavailable''}"
      by (rule assess_Inr_offline)
    from e(2,3) have ex: "\<exists>extra.
             reasons a =
               snd (heuristic_checks pw)
                 @ (if breached_offline a
                    then [''Matches an offline breached password pattern''] else [])
                 @ extra \<and>
             set extra \<subseteq> {''Found in Have I Been Pwned password corpus'',
               ''Not found in Have I Been Pwned password corpus'',
               ''Have I Been Pwned lookup unavailable''}"
      by (intro exI [of _ extra] conjI)
    have sc: "risk_score a =
            min (let s = fst (heuristic_checks pw);
                     s = (if breached_offline a then fadd s (lit (3 / 10)) else s);
                     s = (if breached_online a = Some True then fadd s (lit (35 / 100)) else s)
                 in s) 1"
      unfolding t(2) t(5) by (rule refl)
    from e(1) ex sc Inr show ?thesis by (simp only: sum.case simp_thms)
  qed
qed (rule offline_breach_match_iff corpus_match_iff)+

theorem offline_match_witness:
  "offline_breach_match ''  MyPassword1 '' (fst (load_breached_passwords corpus_world))
   \<and> ''password'' \<in> fst (load_breached_passwords corpus_world)
   \<and> sublist ''password'' (lower ''  MyPassword1 '')
   \<and> \<not> offline_breach_match ''Pass word'' (fst (load_breached_passwords corpus_world))"
proof -
  have 1: "sublist ''password'' (lower ''  MyPassword1 '')" by code_simp
  have 2: "''password'' \<in> fst (load_breached_passwords corpus_world)"
    unfolding corpus_world_corpus by simp
  have 3: "lower (strip ''Pass word'') \<notin> {''password'', ''123456''}" by code_simp
  have 4: "\<not> sublist ''password'' (lower ''Pass word'')" "\<not> sublist ''123456'' (lower ''Pass word'')"
    by code_simp+
  from 1 2 have "offline_breach_match ''  MyPassword1 '' (fst (load_breached_passwords corpus_world))"
    using offline_match [of "''  MyPassword1 ''" "{}" corpus_world False] by blast
  moreover have "\<not> offline_breach_match ''Pass word'' (fst (load_breached_passwords corpus_world))"
    using offline_match [of "''Pass word''" "{}" corpus_world False] 3 4
    unfolding corpus_world_corpus by simp
  ultimately show ?thesis using 1 2 by simp
qed

text \<open>
  Claim C10, as stated, fails in its second half: a line that violates the shape does
  not always make the lookup raise. The count is parsed only on the line whose suffix
  matches, so the body \<^verbatim>\<open>AB:xyz\<close> gives the answer "not found" for the password
  \<^verbatim>\<open>password\<close>, and \<open>assess_password\<close> returns an assessment.
\<close>

theorem unparsed_count_counterexample:
  "list_ex (\<lambda>line. line \<noteq> [] \<and> \<not> record_line line) (splitlines ''AB:xyz'')
   \<and> fst (hibp_lookup (answering ''AB:xyz'' quiet_world) ''password'') = Inr (False, Some 0)
   \<and> map_sum id hibp_count (fst (assess_password (answering ''AB:xyz'' quiet_world) ''password'' True))
       = Inr (Some 0)"
proof -
  have "list_ex (\<lambda>line. line \<noteq> [] \<and> \<not> record_line line) (splitlines ''AB:xyz'')"
    unfolding bad_count_lines by (simp add: bad_count_facts)
  moreover have "map_sum id hibp_count
      (fst (assess_password (answering ''AB:xyz'' quiet_world) ''password'' True)) = Inr (Some 0)"
    by (simp add: assess_online bad_count_lookup finish_fields)
  ultimately show ?thesis using bad_count_lookup by simp
qed

text \<open>
  Claim C10, amended. For a response with a body: if every line that is not empty is a
  suffix and a decimal count of at most 4300 digits (the interpreter's limit for
  \<^verbatim>\<open>int\<close>) with exactly one colon between them, the lookup returns. In general the
  first line that is not empty and either has not exactly one colon or carries the
  suffix looked for decides: without such a line the answer is "not found"; if it has
  not exactly one colon, or its count is not an integer literal that \<^verbatim>\<open>int\<close> accepts
  (more digits than the limit are refused), the \<^verbatim>\<open>ValueError\<close> leaves the lookup, and
  \<open>assess_password\<close> with it; otherwise the answer is "found" with that count. A count
  that is not a number on a line with another suffix, and everything after the
  deciding line, is never parsed.
\<close>

theorem lookup_parse_outcome:
  assumes "urlopen w (hibp_request pw) = Body body"
  shows
    "(list_all (\<lambda>line. line = [] \<or> record_line line) (splitlines body) \<longrightarrow>
        (\<exists>r. fst (hibp_lookup w pw) = Inr r))
     \<and> fst (hibp_lookup w pw) =
         (case first_decisive (drop 5 (upper (sha1_hex pw))) (splitlines body) of
            None \<Rightarrow> Inr (False, Some 0)
          | Some line \<Rightarrow>
              if colon_count line \<noteq> 1 then Inl (ValueError ''unpack'')
              else (case py_int (strip (after_colon line)) of
                      Some n \<Rightarrow> Inr (True, Some n)
                    | None \<Rightarrow> Inl (ValueError ''int'')))
     \<and> (pw \<noteq> [] \<longrightarrow>
          (\<forall>e. fst (hibp_lookup w pw) = Inl e \<longrightarrow> fst (assess_password w pw True) = Inl e))"
proof (intro conjI impI allI)
  assume "list_all (\<lambda>line. line = [] \<or> record_line line) (splitlines body)"
  then show "\<exists>r. fst (hibp_lookup w pw) = Inr r"
    unfolding hibp_lookup_body [OF assms] by (rule scan_lines_total)
next
  show "fst (hibp_lookup w pw) =
         (case first_decisive (drop 5 (upper (sha1_hex pw))) (splitlines body) of
            None \<Rightarrow> Inr (False, Some 0)
          | Some line \<Rightarrow>
              if colon_count line \<noteq> 1 then Inl (ValueError ''unpack'')
              else (case py_int (strip (after_colon line)) of
                      Some n \<Rightarrow> Inr (True, Some n)
                    | None \<Rightarrow> Inl (ValueError ''int'')))"
    unfolding hibp_lookup_body [OF assms] by (rule scan_lines_decided)
next
  fix e
  assume "pw \<noteq> []" "fst (hibp_lookup w pw) = Inl e"
  then show "fst (assess_password w pw True) = Inl e"
    by (simp add: assess_online)
qed

theorem lookup_parse_outcome_witness:
  "urlopen (answering body_ok quiet_world) (hibp_request ''password'') = Body body_ok
   \<and> list_all (\<lambda>line. line = [] \<or> record_line line) (splitlines body_ok)
   \<and> (\<exists>r. fst (hibp_lookup (answering body_ok quiet_world) ''password'') = Inr r)
   \<and> fst (assess_password (answering ''garbage'' quiet_world) ''password'' True) =
       Inl (ValueError ''unpack'')
   \<and> list_ex (\<lambda>line. line \<noteq> [] \<and> \<not> record_line line) (splitlines overlong_body)
   \<and> fst (assess_password (answering overlong_body quiet_world) ''password'' True) =
       Inl (ValueError ''int'')"
proof -
  have 1: "\<exists>r. fst (hibp_lookup (answering body_ok quiet_world) ''password'') = Inr r"
    using lookup_parse_outcome [OF answering_urlopen, of body_ok quiet_world "''password''"]
      body_ok_records by blast
  have "first_decisive sfx [''garbage''] = Some ''garbage''" for sfx
    by (simp add: first_decisive_def garbage_colons)
  then have "fst (hibp_lookup (answering ''garbage'' quiet_world) ''password'') =
      Inl (ValueError ''unpack'')"
    using lookup_parse_outcome [OF answering_urlopen, of "''garbage''" quiet_world "''password''"]
    by (simp add: garbage_lines garbage_colons)
  then have 2: "fst (assess_password (answering ''garbage'' quiet_world) ''password'' True) =
       Inl (ValueError ''unpack'')"
    using lookup_parse_outcome [OF answering_urlopen, of "''garbage''" quiet_world "''password''"]
    by simp
  note long = long_count_line [OF overlong_count, of "''password''", folded overlong_body_line]
  have 3: "list_ex (\<lambda>line. line \<noteq> [] \<and> \<not> record_line line) (splitlines overlong_body)"
    unfolding long(1) using long(3,5) by (auto simp: colon_count_def)
  have "fst (hibp_lookup (answering overlong_body quiet_world) ''password'') = Inl (ValueError ''int'')"
    using lookup_parse_outcome [OF answering_urlopen, of overlong_body quiet_world "''password''"]
    by (simp add: long)
  then have 4: "fst (assess_password (answering overlong_body quiet_world) ''password'' True) =
       Inl (ValueError ''int'')"
    using lookup_parse_outcome [OF answering_urlopen, of overlong_body quiet_world "''password''"]
    by simp
  from 1 2 3 4 body_ok_records show ?thesis by (simp add: answering_urlopen)
qed

text \<open>
  Claim C1. In every run the only request is the one of the lookup, and it is
  \<open>range_request\<close> applied to the first five characters of the upper-case SHA-1
  digest of the password: the URL is the fixed address followed by these five
  characters, and the one header is fixed. The digest has 40 upper-case hexadecimal
  digits; the remaining 35 occur neither in the URL nor in the header, so the full
  digest does not either. Nothing else of the password reaches the request: two
  passwords whose digests begin with the same five characters make the analyzer send
  the same requests, in any two worlds.
\<close>

theorem only_the_prefix_is_sent:
  "requests_of (snd (assess_password w pw include_hibp)) =
      (if include_hibp \<and> pw \<noteq> [] then [range_request (take 5 (upper (sha1_hex pw)))] else [])
   \<and> length (take 5 (upper (sha1_hex pw))) = 5
   \<and> length (drop 5 (upper (sha1_hex pw))) = 35
   \<and> list_all is_upper_hex (upper (sha1_hex pw))
   \<and> url (range_request pfx) = ''https://api.pwnedpasswords.com/range/'' @ pfx
   \<and> headers (range_request pfx) = [(''User-Agent'', ''PasswordStrengthAnalyzer'')]
   \<and> \<not> sublist (drop 5 (upper (sha1_hex pw))) (url (hibp_request pw))
   \<and> \<not> sublist (drop 5 (upper (sha1_hex pw))) ''User-Agent''
   \<and> \<not> sublist (drop 5 (upper (sha1_hex pw))) ''PasswordStrengthAnalyzer''
   \<and> (take 5 (upper (sha1_hex pw)) = take 5 (upper (sha1_hex pw')) \<longrightarrow>
        (pw = [] \<longleftrightarrow> pw' = []) \<longrightarrow>
        requests_of (snd (assess_password w pw include_hibp)) =
          requests_of (snd (assess_password w' pw' include_hibp)))"
proof -
  let ?d = "upper (sha1_hex pw)"
  have len: "length (take 5 ?d) = 5" "length (drop 5 ?d) = 35"
    by (simp_all add: length_digest)
  have hex: "list_all is_upper_hex ?d" by (rule digest_upper_hex)
  then have hex_sfx: "list_all is_upper_hex (drop 5 ?d)"
    by (auto simp: list_all_iff dest: in_set_dropD)
  have sent: "requests_of (snd (assess_password w pw include_hibp)) =
      (if include_hibp \<and> pw \<noteq> [] then [range_request (take 5 ?d)] else [])"
    unfolding requests_of_assess hibp_request_prefix by (rule refl)
  have u: "\<not> sublist (drop 5 ?d) (url (hibp_request pw))"
    unfolding hibp_request_prefix range_request_def request.simps
    using len(2) hex_sfx len(1) by (rule suffix_not_in_url)
  have h1: "\<not> sublist (drop 5 ?d) ''User-Agent''"
    by (rule too_long_for) (simp add: length_digest)
  have h2: "\<not> sublist (drop 5 ?d) ''PasswordStrengthAnalyzer''"
    by (rule too_long_for) (simp add: length_digest)
  have ni: "requests_of (snd (assess_password w pw include_hibp)) =
          requests_of (snd (assess_password w' pw' include_hibp))"
    if "take 5 ?d = take 5 (upper (sha1_hex pw'))" "pw = [] \<longleftrightarrow> pw' = []"
    unfolding requests_of_assess hibp_request_prefix using that by simp
  from sent len hex u h1 h2 ni show ?thesis
    by (simp add: range_request_def)
qed

theorem only_the_prefix_is_sent_witness:
  "''pw2001'' \<noteq> ''pw2501''
   \<and> take 5 (upper (sha1_hex ''pw2001'')) = take 5 (upper (sha1_hex ''pw2501''))
   \<and> requests_of (snd (assess_password quiet_world ''pw2001'' True)) =
       requests_of (snd (assess_password corpus_world ''pw2501'' True))
   \<and> requests_of (snd (assess_password quiet_world ''pw2001'' True)) = [range_request ''DC0A5'']"
proof -
  have p: "take 5 (upper (sha1_hex ''pw2001'')) = take 5 (upper (sha1_hex ''pw2501''))"
    unfolding prefix_pw2001 prefix_pw2501 by (rule refl)
  have e: "(''pw2001'' = []) \<longleftrightarrow> (''pw2501'' = [])" by simp
  have 1: "requests_of (snd (assess_password quiet_world ''pw2001'' True)) =
       requests_of (snd (assess_password corpus_world ''pw2501'' True))"
    using only_the_prefix_is_sent [of quiet_world "''pw2001''" True "[]" "''pw2501''" corpus_world]
      p e by blast
  have 2: "requests_of (snd (assess_password quiet_world ''pw2001'' True)) = [range_request ''DC0A5'']"
    using only_the_prefix_is_sent [of quiet_world "''pw2001''" True "[]" "''pw2501''" corpus_world]
    unfolding prefix_pw2001 by simp
  from p 1 2 show ?thesis by simp
qed

text \<open>
  Claim C9. The score and the label are determined by the password, the corpus that
  was loaded and, when the lookup is requested, its outcome: two runs that agree on
  these return the same \<open>risk_score\<close> and the same \<open>label\<close> (or raise the same
  exception), whatever the files look like otherwise and whatever random numbers are
  drawn. The suggestions may differ, as they do in the two worlds of the example.
\<close>

theorem same_inputs_same_score:
  assumes "fst (load_breached_passwords w1) = fst (load_breached_passwords w2)"
    and "include_hibp \<longrightarrow> fst (hibp_lookup w1 pw) = fst (hibp_lookup w2 pw)"
  shows "map_sum id (\<lambda>a. (risk_score a, label a)) (fst (assess_password w1 pw include_hibp))
     = map_sum id (\<lambda>a. (risk_score a, label a)) (fst (assess_password w2 pw include_hibp))"
proof (cases "pw = []")
  case True
  then show ?thesis by (simp add: assess_password_def)
next
  case False
  show ?thesis
  proof (cases include_hibp)
    case True
    with False assms show ?thesis
      by (simp add: assess_online finish_fields split: sum.split)
  next
    case f: False
    with False assms(1) show ?thesis
      by (simp add: assess_offline finish_fields)
  qed
qed

theorem same_inputs_same_score_witness:
  "fst (load_breached_passwords quiet_world) = fst (load_breached_passwords comment_world)
   \<and> fst (hibp_lookup quiet_world ''aaa'') = fst (hibp_lookup comment_world ''aaa'')
   \<and> map_sum id (\<lambda>a. (risk_score a, label a)) (fst (assess_password quiet_world ''aaa'' True))
     = map_sum id (\<lambda>a. (risk_score a, label a)) (fst (assess_password comment_world ''aaa'' True))
   \<and> map_sum id suggestions (fst (assess_password quiet_world ''aaa'' True)) \<noteq>
     map_sum id suggestions (fst (assess_password comment_world ''aaa'' True))"
proof -
  have 1: "fst (load_breached_passwords quiet_world) = fst (load_breached_passwords comment_world)"
    unfolding quiet_world_corpus comment_world_corpus by (rule refl)
  have 2: "fst (hibp_lookup quiet_world ''aaa'') = fst (hibp_lookup comment_world ''aaa'')"
    unfolding lookup_quiet lookup_comment by (rule refl)
  from 2 have 3: "True \<longrightarrow> fst (hibp_lookup quiet_world ''aaa'') = fst (hibp_lookup comment_world ''aaa'')"
    by simp
  note same_inputs_same_score [OF 1 3]
  with 1 2 suggestions_differ show ?thesis by simp
qed

text \<open>
  Claim C3. The label of an assessment is a step function of its \<open>risk_score\<close> alone:
  \<^verbatim>\<open>low\<close> below 0.45, \<^verbatim>\<open>medium\<close> from 0.45 to below 0.75, and \<^verbatim>\<open>high\<close> from 0.75
  on. The code compares with the floats 0.45 and 0.75. The float 0.75 is exactly 3/4;
  the float 0.45 is a little above 45/100, but no float lies between the two, so for
  the scores, which are floats, both readings of the thresholds agree.
\<close>

theorem label_step_function:
  "(case fst (assess_password w pw include_hibp) of
      Inr a \<Rightarrow>
        label a =
          (if risk_score a < 45 / 100 then ''low''
           else if risk_score a < 75 / 100 then ''medium''
           else ''high'') \<and>
        label a =
          (if risk_score a < lit (45 / 100) then ''low''
           else if risk_score a < lit (75 / 100) then ''medium''
           else ''high'')
    | Inl e \<Rightarrow> pw = [] \<or> (include_hibp \<and> fst (hibp_lookup w pw) = Inl e))
   \<and> lit (75 / 100) = 75 / 100
   \<and> lit (45 / 100) = 8106479329266893 / 18014398509481984"
proof (intro conjI)
  show "case fst (assess_password w pw include_hibp) of
      Inr a \<Rightarrow>
        label a =
          (if risk_score a < 45 / 100 then ''low''
           else if risk_score a < 75 / 100 then ''medium''
           else ''high'') \<and>
        label a =
          (if risk_score a < lit (45 / 100) then ''low''
           else if risk_score a < lit (75 / 100) then ''medium''
           else ''high'')
    | Inl e \<Rightarrow> pw = [] \<or> (include_hibp \<and> fst (hibp_lookup w pw) = Inl e)"
  proof (cases "fst (assess_password w pw include_hibp)")
    case (Inl e)
    then show ?thesis using assess_Inl_cases [of w pw include_hibp e] by auto
  next
    case (Inr a)
    have "label a = format_risk_label (risk_score a)"
      using Inr by (rule label_of_score)
    also have "\<dots> = (if risk_score a < lit (45 / 100) then ''low''
           else if risk_score a < lit (75 / 100) then ''medium''
           else ''high'')"
      unfolding format_risk_label_def by (rule step_function_order [OF thresholds_ordered])
    finally have 1: "label a = (if risk_score a < lit (45 / 100) then ''low''
           else if risk_score a < lit (75 / 100) then ''medium''
           else ''high'')" .
    from Inr obtain x where x: "risk_score a = min (fround x) 1" by (rule assess_Inr_double)
    have b: "risk_score a < lit (45 / 100) \<longleftrightarrow> risk_score a < 45 / 100"
      unfolding x by (rule below_045)
    have c: "lit (75 / 100) = 75 / 100" by code_simp
    have 2: "label a = (if risk_score a < 45 / 100 then ''low''
           else if risk_score a < 75 / 100 then ''medium''
           else ''high'')"
      using 1 unfolding b c .
    from 1 2 Inr show ?thesis by (simp only: sum.case simp_thms)
  qed
  show "lit (75 / 100) = 75 / 100" by code_simp
  show "lit (45 / 100) = 8106479329266893 / 18014398509481984" by (rule lit_45)
qed

end
